theory Spec2Isabelle
  imports Complex_Main "HOL-Library.Word" "HOL-Library.Log_Nat"
begin

unbundle bit_operations_syntax

section \<open>Machine types of the ATtiny85 build\<close>

text \<open>
  The firmware is compiled by avr-gcc for the ATtiny85: \<open>int\<close> and \<open>unsigned int\<close> have
  16 bits, \<open>uint8_t\<close> has 8, \<open>uint64_t\<close> has 64. A \<open>uint8_t\<close> operand of a shift or of a
  bitwise operator is promoted to \<open>int\<close> first; the models below carry out such an
  operation on 16-bit words and narrow the result where the source stores it in a
  \<open>uint8_t\<close>.
\<close>

type_synonym uint8_t = "8 word"
type_synonym uint16_t = "16 word"
type_synonym uint64_t = "64 word"

datatype error =
  OutOfBounds nat      \<comment> \<open>an array read at this index, past the end of the buffer\<close>
| ShiftOutOfRange      \<comment> \<open>a shift by a negative count or by the width of \<open>int\<close> or more\<close>
| FloatToIntOverflow   \<comment> \<open>a \<open>float\<close> converted to an \<open>int\<close> that cannot hold it\<close>
| DivisionByZero

section \<open>OS21Tx.h: constants\<close>

definition SUM_MASK :: uint64_t where "SUM_MASK = 0xfffe0"
definition CRC_MASK :: uint64_t where "CRC_MASK = 0xff3e0"
definition CRC_IV :: uint8_t where "CRC_IV = 0x42"
definition CRC_POLY :: uint16_t where "CRC_POLY = 0x7"
definition DATA_LEN :: nat where "DATA_LEN = 12"

section \<open>OS21Tx.h: checksumSimple and checksumCRC\<close>

text \<open>
  Both functions receive the buffer as a pointer and read \<open>data[i / 2]\<close> for every
  position \<open>i\<close> of the mask that is set. The buffer is a list here, and a read past its
  end is the error \<open>OutOfBounds\<close>.
\<close>

definition nibbleAt :: "uint8_t list \<Rightarrow> nat \<Rightarrow> error + uint16_t" where
  "nibbleAt buf i =
     (if i div 2 < length buf
      then Inr (drop_bit ((i mod 2) * 4) (ucast (buf ! (i div 2)) :: uint16_t) AND 0xf)
      else Inl (OutOfBounds (i div 2)))"

function checksumSimple_loop :: "uint8_t list \<Rightarrow> uint64_t \<Rightarrow> nat \<Rightarrow> uint16_t \<Rightarrow> error + uint16_t" where
  "checksumSimple_loop buf msk i s =
     (if i < 64 then
        if drop_bit i msk AND 0x1 = 0 then checksumSimple_loop buf msk (i + 1) s
        else
          case nibbleAt buf i of
            Inl e \<Rightarrow> Inl e
          | Inr n \<Rightarrow>
              let s1 = s + n;
                  s2 = s1 + (drop_bit 8 s1 AND 0x1);
                  s3 = s2 AND 0xff
              in checksumSimple_loop buf msk (i + 1) s3
      else Inr s)"
  by pat_completeness auto
termination
  by (relation "measure (\<lambda>(buf, msk, i, s). 64 - i)") auto

definition checksumSimple :: "uint8_t list \<Rightarrow> uint64_t \<Rightarrow> error + uint8_t" where
  "checksumSimple buf msk =
     (case checksumSimple_loop buf msk 0 0x0000 of
        Inl e \<Rightarrow> Inl e
      | Inr s \<Rightarrow> Inr (ucast s))"

function checksumCRC_bits :: "int \<Rightarrow> uint8_t \<Rightarrow> uint16_t \<Rightarrow> uint16_t" where
  "checksumCRC_bits j nibble s =
     (if j \<ge> 0 then
        let bt = ucast (drop_bit (nat j) (ucast nibble :: uint16_t) AND 0x1) :: uint8_t;
            s1 = push_bit 1 s;
            s2 = s1 OR ucast bt;
            s3 = (if s2 AND 0x100 \<noteq> 0 then s2 XOR CRC_POLY else s2)
        in checksumCRC_bits (j - 1) nibble s3
      else s)"
  by pat_completeness auto
termination
  by (relation "measure (\<lambda>(j, nibble, s). nat (j + 1))") auto

function checksumCRC_loop :: "uint8_t list \<Rightarrow> uint64_t \<Rightarrow> nat \<Rightarrow> uint16_t \<Rightarrow> error + uint16_t" where
  "checksumCRC_loop buf msk i s =
     (if i < 64 then
        if drop_bit i msk AND 0x1 = 0 then checksumCRC_loop buf msk (i + 1) s
        else
          case nibbleAt buf i of
            Inl e \<Rightarrow> Inl e
          | Inr n \<Rightarrow>
              let nibble = ucast n :: uint8_t
              in checksumCRC_loop buf msk (i + 1) (checksumCRC_bits 3 nibble s)
      else Inr s)"
  by pat_completeness auto
termination
  by (relation "measure (\<lambda>(buf, msk, i, s). 64 - i)") auto

function checksumCRC_flush :: "nat \<Rightarrow> uint16_t \<Rightarrow> uint16_t" where
  "checksumCRC_flush i s =
     (if i < 8 then
        let s1 = push_bit 1 s;
            s2 = (if s1 AND 0x100 \<noteq> 0 then s1 XOR CRC_POLY else s1)
        in checksumCRC_flush (i + 1) s2
      else s)"
  by pat_completeness auto
termination
  by (relation "measure (\<lambda>(i, s). 8 - i)") auto

definition checksumCRC :: "uint8_t list \<Rightarrow> uint64_t \<Rightarrow> uint8_t \<Rightarrow> error + uint8_t" where
  "checksumCRC buf msk iv =
     (case checksumCRC_loop buf msk 0 (ucast iv) of
        Inl e \<Rightarrow> Inl e
      | Inr s \<Rightarrow> Inr (ucast (checksumCRC_flush 0 s)))"

section \<open>The \<open>float\<close> type\<close>

text \<open>
  On this target \<open>float\<close> and \<open>double\<close> are both IEEE 754 binary32. A finite
  \<open>float\<close> is modelled by the rational number it denotes; every arithmetic operation
  computes the exact result and rounds it to the nearest number with a 24-bit
  significand, ties to the even significand (\<open>f32_round\<close>). Not-a-number, the
  infinities and overflow past the largest finite value are outside the model.
\<close>

type_synonym float = rat

definition round_half_even :: "rat \<Rightarrow> int" where
  "round_half_even q =
     (let f = \<lfloor>q\<rfloor>; r = q - of_int f
      in if r < 1 / 2 then f else if 1 / 2 < r then f + 1 else if even f then f else f + 1)"

definition ilog2 :: "rat \<Rightarrow> int" where
  \<comment> \<open>the exponent \<open>e\<close> with \<open>2 powi e \<le> x < 2 powi (e + 1)\<close>, for \<open>0 < x\<close>\<close>
  "ilog2 x =
     (let (a, b) = quotient_of x; d = bitlen a - bitlen b
      in if 2 powi d \<le> x then d else d - 1)"

definition f32_round :: "rat \<Rightarrow> float" where
  "f32_round x =
     (if x = 0 then 0
      else let e = max (ilog2 \<bar>x\<bar>) (- 126); u = 2 powi (e - 23)
           in of_int (round_half_even (x / u)) * u)"

definition f32_mul :: "float \<Rightarrow> float \<Rightarrow> float" where
  "f32_mul x y = f32_round (x * y)"

definition f32_add :: "float \<Rightarrow> float \<Rightarrow> float" where
  "f32_add x y = f32_round (x + y)"

text \<open>\<open>(int) x\<close> drops the fraction; the result must fit the 16-bit \<open>int\<close>.\<close>

definition c_int :: "float \<Rightarrow> error + int" where
  "c_int x =
     (let n = (if x < 0 then - \<lfloor>- x\<rfloor> else \<lfloor>x\<rfloor>)
      in if - 32768 \<le> n \<and> n \<le> 32767 then Inr n else Inl FloatToIntOverflow)"

text \<open>The operators \<open>/\<close> and \<open>%\<close> of C on \<open>int\<close>: the quotient is truncated towards zero.\<close>

definition c_div :: "int \<Rightarrow> int \<Rightarrow> int" where
  "c_div a b = sgn a * sgn b * (\<bar>a\<bar> div \<bar>b\<bar>)"

definition c_mod :: "int \<Rightarrow> int \<Rightarrow> int" where
  "c_mod a b = a - b * c_div a b"

section \<open>The microcontroller\<close>

datatype pin_mode = INPUT | OUTPUT | INPUT_PULLUP

datatype sleep_mode_t = SLEEP_MODE_IDLE | SLEEP_MODE_PWR_DOWN

datatype event =
  PinMode uint8_t pin_mode    \<comment> \<open>\<open>pinMode(pin, mode)\<close>\<close>
| DigitalWrite uint8_t bool   \<comment> \<open>\<open>digitalWrite(pin, val)\<close>\<close>
| SleepCpu                    \<comment> \<open>\<open>sleep_cpu()\<close>: halt until the next interrupt\<close>
| Delay nat                   \<comment> \<open>\<open>delay(ms)\<close>\<close>
| WdtReset                    \<comment> \<open>\<open>wdt_reset()\<close>\<close>
| WdtDisable                  \<comment> \<open>\<open>wdt_disable()\<close>\<close>

abbreviation HIGH :: bool where "HIGH \<equiv> True"
abbreviation LOW :: bool where "LOW \<equiv> False"

text \<open>
  The registers the program assigns, the interrupt flag of the status register, the
  sleep-mode and sleep-enable bits, and the trace of the calls that act on the outside
  world, oldest first. Both interrupt handlers are empty, so an interrupt changes
  nothing here.
\<close>

record mcu =
  TCCR0A :: uint8_t
  TCCR0B :: uint8_t
  OCR0A :: uint8_t
  TIMSK :: uint8_t
  WDTCR :: uint8_t
  ADCSRA :: uint8_t
  ADMUX :: uint8_t
  interrupts :: bool
  sleep_mode :: sleep_mode_t
  sleep_enabled :: bool
  trace :: "event list"

definition emit :: "event \<Rightarrow> mcu \<Rightarrow> mcu" where
  "emit ev m = m\<lparr>trace := trace m @ [ev]\<rparr>"

definition pinMode :: "uint8_t \<Rightarrow> pin_mode \<Rightarrow> mcu \<Rightarrow> mcu" where
  "pinMode p md m = emit (PinMode p md) m"

definition digitalWrite :: "uint8_t \<Rightarrow> bool \<Rightarrow> mcu \<Rightarrow> mcu" where
  "digitalWrite p val m = emit (DigitalWrite p val) m"

definition sleep_cpu :: "mcu \<Rightarrow> mcu" where
  "sleep_cpu m = emit SleepCpu m"

definition delay :: "nat \<Rightarrow> mcu \<Rightarrow> mcu" where
  "delay ms m = emit (Delay ms) m"

definition cli :: "mcu \<Rightarrow> mcu" where
  "cli m = m\<lparr>interrupts := False\<rparr>"

definition sei :: "mcu \<Rightarrow> mcu" where
  "sei m = m\<lparr>interrupts := True\<rparr>"

definition set_sleep_mode :: "sleep_mode_t \<Rightarrow> mcu \<Rightarrow> mcu" where
  "set_sleep_mode sm m = m\<lparr>sleep_mode := sm\<rparr>"

definition sleep_enable :: "mcu \<Rightarrow> mcu" where
  "sleep_enable m = m\<lparr>sleep_enabled := True\<rparr>"

definition sleep_disable :: "mcu \<Rightarrow> mcu" where
  "sleep_disable m = m\<lparr>sleep_enabled := False\<rparr>"

text \<open>
  Bit numbers of the device header of the ATtiny85, which is not part of the repository
  (values of its data sheet). No theorem below depends on them.
\<close>

definition WGM01 :: nat where "WGM01 = 1"
definition CS02 :: nat where "CS02 = 2"
definition CS01 :: nat where "CS01 = 1"
definition CS00 :: nat where "CS00 = 0"
definition OCIE0A :: nat where "OCIE0A = 4"
definition WDIE :: nat where "WDIE = 6"
definition WDCE :: nat where "WDCE = 4"
definition WDE :: nat where "WDE = 3"
definition WDP3 :: nat where "WDP3 = 5"
definition WDP2 :: nat where "WDP2 = 2"
definition WDP1 :: nat where "WDP1 = 1"
definition WDP0 :: nat where "WDP0 = 0"
definition ADEN :: nat where "ADEN = 7"
definition ADSC :: nat where "ADSC = 6"
definition MUX3 :: nat where "MUX3 = 3"
definition MUX2 :: nat where "MUX2 = 2"

section \<open>OS21Tx.h: the class \<open>OS21Tx\<close>\<close>

record OS21Tx =
  pin :: uint8_t
  old_TCCR0A :: uint8_t
  old_TCCR0B :: uint8_t
  old_OCR0A :: uint8_t
  old_TIMSK :: uint8_t
  data :: "uint8_t list"

text \<open>
  The constructor. The sketch declares its transmitter at namespace scope, so the four
  members without an initialiser start as zero.
\<close>

definition OS21Tx_new :: "uint8_t \<Rightarrow> OS21Tx" where
  "OS21Tx_new p =
     \<lparr>pin = p, old_TCCR0A = 0, old_TCCR0B = 0, old_OCR0A = 0, old_TIMSK = 0,
      data = [0xff, 0xff, 0x1a, 0x2d, 0x00, 0x00, 0x08, 0x00, 0x00, 0x80, 0x00, 0x00]\<rparr>"

text \<open>
  \<open>data[i] &= v\<close> and \<open>data[i] |= v\<close>: the byte is promoted to \<open>int\<close>, combined with the
  \<open>int\<close> operand \<open>v\<close>, and the result is narrowed to \<open>uint8_t\<close>.
\<close>

definition and_eq :: "nat \<Rightarrow> uint16_t \<Rightarrow> OS21Tx \<Rightarrow> OS21Tx" where
  "and_eq i v tx = tx\<lparr>data := (data tx)[i := ucast ((ucast (data tx ! i) :: uint16_t) AND v)]\<rparr>"

definition or_eq :: "nat \<Rightarrow> uint16_t \<Rightarrow> OS21Tx \<Rightarrow> OS21Tx" where
  "or_eq i v tx = tx\<lparr>data := (data tx)[i := ucast ((ucast (data tx ! i) :: uint16_t) OR v)]\<rparr>"

definition setRollingId :: "uint8_t \<Rightarrow> OS21Tx \<Rightarrow> OS21Tx" where
  "setRollingId rollingId tx = or_eq 5 (ucast rollingId AND 0xff) (and_eq 5 0x00 tx)"

text \<open>
  \<open>1 << (channel - 1)\<close> is computed on \<open>int\<close>; a count of \<open>-1\<close> or of 16 and more has
  no defined result.
\<close>

definition setChannel :: "uint8_t \<Rightarrow> OS21Tx \<Rightarrow> error + OS21Tx" where
  "setChannel channel tx =
     (if uint channel - 1 < 0 \<or> 16 \<le> uint channel - 1 then Inl ShiftOutOfRange
      else
        let channelCode = ucast (push_bit (nat (uint channel - 1)) (1 :: uint16_t)) :: uint8_t
        in Inr (or_eq 4 (push_bit 4 (ucast channelCode) AND 0xf0) (and_eq 4 0x0f tx)))"

definition setTemperature :: "float \<Rightarrow> OS21Tx \<Rightarrow> error + OS21Tx" where
  "setTemperature t tx =
     (let t_sign = (if t < 0 then 1 else 0) :: uint8_t
      in case c_int (f32_mul t (if t_sign \<noteq> 0 then - 10 else 10)) of
           Inl e \<Rightarrow> Inl e
         | Inr n \<Rightarrow>
             let t_deci = word_of_int (c_mod (c_div n 1) 10) :: uint8_t;
                 t_ones = word_of_int (c_mod (c_div n 10) 10) :: uint8_t;
                 t_tens = word_of_int (c_mod (c_div n 100) 10) :: uint8_t;
                 t_huns = word_of_int (c_mod (c_div n 1000) 10) :: uint8_t;
                 tx1 = or_eq 6 (push_bit 4 (ucast t_deci) AND 0xf0) (and_eq 6 0x0f tx);
                 tx2 = or_eq 7 (push_bit 0 (ucast t_ones) AND 0x0f) (and_eq 7 0xf0 tx1);
                 tx3 = or_eq 7 (push_bit 4 (ucast t_tens) AND 0xf0) (and_eq 7 0x0f tx2);
                 tx4 = or_eq 8 (push_bit 0 (ucast t_huns) AND 0x03) (and_eq 8 0xfc tx3);
                 tx5 = or_eq 8 (push_bit 3 (ucast t_sign) AND 0x0c) (and_eq 8 0xf3 tx4)
             in Inr tx5)"

definition setHumidity :: "float \<Rightarrow> OS21Tx \<Rightarrow> error + OS21Tx" where
  "setHumidity h0 tx =
     (let h = f32_add h0 (1 / 2)
      in case c_int (f32_mul h 10) of
           Inl e \<Rightarrow> Inl e
         | Inr n \<Rightarrow>
             let h_ones = word_of_int (c_mod (c_div n 10) 10) :: uint8_t;
                 h_tens = word_of_int (c_mod (c_div n 100) 10) :: uint8_t;
                 tx1 = or_eq 8 (push_bit 4 (ucast h_ones) AND 0xf0) (and_eq 8 0x0f tx);
                 tx2 = or_eq 9 (push_bit 0 (ucast h_tens) AND 0x0f) (and_eq 9 0xf0 tx1)
             in Inr tx2)"

definition setLowBattery :: "bool \<Rightarrow> OS21Tx \<Rightarrow> OS21Tx" where
  "setLowBattery b tx = or_eq 6 (if b then 0x4 else 0x0) (and_eq 6 0xf8 tx)"

definition setChecksum :: "OS21Tx \<Rightarrow> error + OS21Tx" where
  "setChecksum tx =
     (let tx1 = and_eq 10 0x00 tx
      in case checksumSimple (data tx1) SUM_MASK of
           Inl e \<Rightarrow> Inl e
         | Inr c \<Rightarrow> Inr (or_eq 10 (ucast c AND 0xff) tx1))"

definition setCRC :: "OS21Tx \<Rightarrow> error + OS21Tx" where
  "setCRC tx =
     (let tx1 = and_eq 11 0x00 tx
      in case checksumCRC (data tx1) CRC_MASK CRC_IV of
           Inl e \<Rightarrow> Inl e
         | Inr c \<Rightarrow> Inr (or_eq 11 (ucast c AND 0xff) tx1))"

definition writeSyncBit :: "bool \<Rightarrow> OS21Tx \<Rightarrow> mcu \<Rightarrow> mcu" where
  "writeSyncBit val tx m = digitalWrite (pin tx) val (sleep_cpu m)"

definition sendZero :: "OS21Tx \<Rightarrow> mcu \<Rightarrow> mcu" where
  "sendZero tx m = writeSyncBit HIGH tx (writeSyncBit LOW tx m)"

definition sendOne :: "OS21Tx \<Rightarrow> mcu \<Rightarrow> mcu" where
  "sendOne tx m = writeSyncBit LOW tx (writeSyncBit HIGH tx m)"

definition sendBit :: "bool \<Rightarrow> OS21Tx \<Rightarrow> mcu \<Rightarrow> mcu" where
  "sendBit val tx m = (if val then sendOne tx (sendZero tx m) else sendZero tx (sendOne tx m))"

definition configureTimer :: "OS21Tx \<Rightarrow> mcu \<Rightarrow> OS21Tx \<times> mcu" where
  "configureTimer tx m =
     (let tx1 = tx\<lparr>old_TCCR0A := TCCR0A m\<rparr>;
          tx2 = tx1\<lparr>old_TCCR0B := TCCR0B m\<rparr>;
          tx3 = tx2\<lparr>old_OCR0A := OCR0A m\<rparr>;
          tx4 = tx3\<lparr>old_TIMSK := TIMSK m\<rparr>;
          m1 = cli m;
          m2 = m1\<lparr>TCCR0A := push_bit WGM01 1\<rparr>;
          m3 = m2\<lparr>TCCR0B := push_bit CS02 1 OR push_bit CS01 1 OR push_bit CS00 1\<rparr>;
          m4 = m3\<lparr>OCR0A := 0xf\<rparr>;
          m5 = m4\<lparr>TIMSK := push_bit OCIE0A 1\<rparr>;
          m6 = sei m5
      in (tx4, sleep_enable (set_sleep_mode SLEEP_MODE_IDLE m6)))"

definition restoreTimer :: "OS21Tx \<Rightarrow> mcu \<Rightarrow> mcu" where
  "restoreTimer tx m =
     (let m1 = sleep_disable m;
          m2 = cli m1;
          m3 = m2\<lparr>TCCR0A := old_TCCR0A tx\<rparr>;
          m4 = m3\<lparr>TCCR0B := old_TCCR0B tx\<rparr>;
          m5 = m4\<lparr>OCR0A := old_OCR0A tx\<rparr>;
          m6 = m5\<lparr>TIMSK := old_TIMSK tx\<rparr>
      in sei m6)"

text \<open>The bit that \<open>sendData\<close> passes to \<open>sendBit\<close> in round \<open>i\<close> of its loop.\<close>

definition dataBit :: "OS21Tx \<Rightarrow> nat \<Rightarrow> bool" where
  "dataBit tx i = (drop_bit (i mod 8) (ucast (data tx ! (i div 8)) :: uint16_t) AND 0x1 \<noteq> 0)"

function sendData_loop :: "OS21Tx \<Rightarrow> nat \<Rightarrow> mcu \<Rightarrow> mcu" where
  "sendData_loop tx i m =
     (if i < DATA_LEN * 8 then sendData_loop tx (i + 1) (sendBit (dataBit tx i) tx m) else m)"
  by pat_completeness auto
termination
  by (relation "measure (\<lambda>(tx, i, m). DATA_LEN * 8 - i)") auto

definition sendData :: "OS21Tx \<Rightarrow> mcu \<Rightarrow> OS21Tx \<times> mcu" where
  "sendData tx m =
     (let (tx1, m1) = configureTimer tx m;
          m2 = sendData_loop tx1 0 m1;
          m3 = writeSyncBit LOW tx1 m2
      in (tx1, restoreTimer tx1 m3))"

definition OS21Tx_begin :: "uint8_t \<Rightarrow> uint8_t \<Rightarrow> OS21Tx \<Rightarrow> mcu \<Rightarrow> error + OS21Tx \<times> mcu" where
  "OS21Tx_begin channel rollingId tx m =
     (let m1 = pinMode (pin tx) OUTPUT m;
          tx1 = setRollingId rollingId tx
      in case setChannel channel tx1 of
           Inl e \<Rightarrow> Inl e
         | Inr tx2 \<Rightarrow> Inr (tx2, m1))"

definition transmit :: "float \<Rightarrow> float \<Rightarrow> bool \<Rightarrow> OS21Tx \<Rightarrow> mcu \<Rightarrow> error + OS21Tx \<times> mcu" where
  "transmit temperature humidity lowBattery tx m =
     (case setTemperature temperature tx of
        Inl e \<Rightarrow> Inl e
      | Inr tx1 \<Rightarrow>
         (case setHumidity humidity tx1 of
            Inl e \<Rightarrow> Inl e
          | Inr tx2 \<Rightarrow>
             (case setChecksum (setLowBattery lowBattery tx2) of
                Inl e \<Rightarrow> Inl e
              | Inr tx3 \<Rightarrow>
                 (case setCRC tx3 of
                    Inl e \<Rightarrow> Inl e
                  | Inr tx4 \<Rightarrow>
                      let (tx5, m1) = sendData tx4 m;
                          m2 = delay 55 m1
                      in Inr (sendData tx5 m2)))))"

section \<open>DHTWrapper.h\<close>

text \<open>
  The wrapper of the sensor library. The library itself is outside the repository: what
  \<open>read\<close> stores into its two reference parameters is an input of the model.
\<close>

record DHTWrapper =
  dataPin :: uint8_t
  powerPin :: uint8_t

definition powerOn :: "DHTWrapper \<Rightarrow> mcu \<Rightarrow> mcu" where
  "powerOn d m = digitalWrite (powerPin d) HIGH m"

definition powerOff :: "DHTWrapper \<Rightarrow> mcu \<Rightarrow> mcu" where
  "powerOff d m =
     (let m1 = digitalWrite (powerPin d) LOW m;
          m2 = pinMode (dataPin d) OUTPUT m1
      in digitalWrite (dataPin d) LOW m2)"

definition irrationalReading :: "float \<Rightarrow> float \<Rightarrow> bool" where
  "irrationalReading t h \<longleftrightarrow>
     (t = 0 \<and> h = 0) \<or> (t = 150 \<and> h = 100) \<or> (t = 50 \<and> h = 0)"

section \<open>sensor.ino\<close>

definition DHT_DATA_PIN :: uint8_t where "DHT_DATA_PIN = 4"
definition DHT_POWER_PIN :: uint8_t where "DHT_POWER_PIN = 3"
definition T0_XO_POWER_PIN :: uint8_t where "T0_XO_POWER_PIN = 1"
definition TX_PIN :: uint8_t where "TX_PIN = 0"
definition LOW_BATTERY :: int where "LOW_BATTERY = 2000"

definition dht :: DHTWrapper where
  "dht = \<lparr>dataPin = DHT_DATA_PIN, powerPin = DHT_POWER_PIN\<rparr>"

text \<open>
  \<open>getVcc\<close> starts a conversion and waits until the converter clears the start bit; the
  model lets the conversion finish and takes the two result registers \<open>adcl\<close> and \<open>adch\<close>
  as inputs.
\<close>

definition getVcc :: "uint8_t \<Rightarrow> uint8_t \<Rightarrow> mcu \<Rightarrow> error + int \<times> mcu" where
  "getVcc adcl adch m =
     (let saved = ADCSRA m;
          m1 = m\<lparr>ADCSRA := push_bit ADEN 1\<rparr>;
          m2 = m1\<lparr>ADMUX := push_bit MUX3 1 OR push_bit MUX2 1\<rparr>;
          m3 = delay 2 m2;
          m4 = m3\<lparr>ADCSRA := ADCSRA m3 OR push_bit ADSC 1\<rparr>;
          m5 = m4\<lparr>ADCSRA := ADCSRA m4 AND NOT (push_bit ADSC 1)\<rparr>;
          result = push_bit 8 (ucast adch) OR push_bit 0 (ucast adcl) :: uint16_t;
          m6 = m5\<lparr>ADCSRA := saved\<rparr>
      in if result = 0 then Inl DivisionByZero else Inr (1125300 div uint result, m6))"

text \<open>
  One pass of \<open>loop\<close>. \<open>t\<close> and \<open>h\<close> are what \<open>dht.read\<close> delivers in this pass, \<open>adcl\<close>
  and \<open>adch\<close> what the converter delivers to \<open>getVcc\<close>.
\<close>

definition loop :: "float \<Rightarrow> float \<Rightarrow> uint8_t \<Rightarrow> uint8_t \<Rightarrow> OS21Tx \<Rightarrow> mcu \<Rightarrow> error + OS21Tx \<times> mcu" where
  "loop t h adcl adch tx m =
     (let m1 = digitalWrite T0_XO_POWER_PIN HIGH m;
          m2 = powerOn dht m1;
          m3 = sleep_enable (set_sleep_mode SLEEP_MODE_PWR_DOWN m2);
          m4 = m3\<lparr>WDTCR := push_bit WDIE 1 OR push_bit WDCE 1 OR push_bit WDE 1
                          OR push_bit WDP2 1 OR push_bit WDP1 1 OR push_bit WDP0 1\<rparr>;
          m5 = sleep_disable (sleep_cpu (emit WdtReset m4))
      in if irrationalReading t h then Inr (tx, m5)
         else
           let m6 = powerOff dht m5
           in case getVcc adcl adch m6 of
                Inl e \<Rightarrow> Inl e
              | Inr (vcc, m7) \<Rightarrow>
                 (case transmit t h (vcc < LOW_BATTERY) tx m7 of
                    Inl e \<Rightarrow> Inl e
                  | Inr (tx1, m8) \<Rightarrow>
                      let m9 = digitalWrite T0_XO_POWER_PIN LOW m8;
                          m10 = sleep_enable (set_sleep_mode SLEEP_MODE_PWR_DOWN m9);
                          m11 = emit WdtDisable m10;
                          m12 = m11\<lparr>WDTCR := push_bit WDIE 1 OR push_bit WDCE 1
                                            OR push_bit WDP3 1 OR push_bit WDP0 1\<rparr>;
                          m13 = emit WdtReset m12;
                          m14 = sleep_cpu (sleep_cpu (sleep_cpu (sleep_cpu (sleep_cpu m13))))
                      in Inr (tx1, sleep_disable m14)))"

section \<open>Observations used by the properties\<close>

text \<open>The values written to pin \<open>p\<close>, in the order of the calls of \<open>digitalWrite\<close>.\<close>

fun pinWrites :: "uint8_t \<Rightarrow> event list \<Rightarrow> bool list" where
  "pinWrites p [] = []"
| "pinWrites p (DigitalWrite q v # evs) = (if q = p then v # pinWrites p evs else pinWrites p evs)"
| "pinWrites p (_ # evs) = pinWrites p evs"

text \<open>The pair of half-bit symbols the specification assigns to a bit.\<close>

definition manchester :: "bool \<Rightarrow> bool list" where
  "manchester b = (if b then [HIGH, LOW] else [LOW, HIGH])"

text \<open>A microcontroller with every modelled register cleared and an empty trace.\<close>

definition mcu_reset :: mcu where
  "mcu_reset = \<lparr>TCCR0A = 0, TCCR0B = 0, OCR0A = 0, TIMSK = 0, WDTCR = 0, ADCSRA = 0, ADMUX = 0,
      interrupts = False, sleep_mode = SLEEP_MODE_IDLE, sleep_enabled = False, trace = []\<rparr>"

text \<open>
  The reference definitions of the two digests, written after the specification. A nibble
  position \<open>i\<close> is selected when bit \<open>i\<close> of the mask is set; nibble \<open>i\<close> is the four
  bits at offset \<open>4 * (i mod 2)\<close> of byte \<open>i div 2\<close>.
\<close>

definition selected_spec :: "uint64_t \<Rightarrow> nat list" where
  "selected_spec msk = filter (bit msk) [0..<64]"

definition nibble_spec :: "uint8_t list \<Rightarrow> nat \<Rightarrow> nat" where
  "nibble_spec buf i = (unat (buf ! (i div 2)) div 2 ^ (4 * (i mod 2))) mod 16"

definition sum_step_spec :: "nat \<Rightarrow> nat \<Rightarrow> nat" where
  "sum_step_spec s n = (let s1 = s + n in (s1 + (s1 div 256) mod 2) mod 256)"

definition checksumSimple_spec :: "uint8_t list \<Rightarrow> uint64_t \<Rightarrow> uint8_t" where
  "checksumSimple_spec buf msk =
     of_nat (foldl sum_step_spec 0 (map (nibble_spec buf) (selected_spec msk)))"

text \<open>
  The CRC register of the specification has 8 bits: a bit is shifted in at the low end,
  and the polynomial is added when the bit shifted out at the high end is 1. The bits of
  a nibble enter most significant first.
\<close>

definition crc8_shift_spec :: "uint8_t \<Rightarrow> bool \<Rightarrow> uint8_t" where
  "crc8_shift_spec r b =
     (let r1 = push_bit 1 r OR of_bool b in if bit r 7 then r1 XOR 0x07 else r1)"

definition nibble_bits_spec :: "nat \<Rightarrow> bool list" where
  "nibble_bits_spec n = map (bit n) [3, 2, 1, 0]"

definition checksumCRC_spec :: "uint8_t list \<Rightarrow> uint64_t \<Rightarrow> uint8_t \<Rightarrow> uint8_t" where
  "checksumCRC_spec buf msk iv =
     (let r = foldl crc8_shift_spec iv
                (concat (map (\<lambda>i. nibble_bits_spec (nibble_spec buf i)) (selected_spec msk)))
      in foldl crc8_shift_spec r (replicate 8 False))"

text \<open>
  The example transmission that the comment at the head of \<open>OS21Tx.h\<close> documents.
\<close>

definition example_data :: "uint8_t list" where
  "example_data = [0xff, 0xff, 0x1a, 0x2d, 0x20, 0xbb, 0x7c, 0x22, 0x00, 0x83, 0x4a, 0x55]"

text \<open>
  The body that the inner loop and the flush loop of \<open>checksumCRC\<close> share, on the 16-bit
  variable of the source; \<open>b\<close> is the bit that enters.
\<close>

definition crc_step :: "uint16_t \<Rightarrow> bool \<Rightarrow> uint16_t" where
  "crc_step s b = (let s2 = push_bit 1 s OR of_bool b in if s2 AND 0x100 \<noteq> 0 then s2 XOR CRC_POLY else s2)"

text \<open>
  The first part of \<open>loop\<close>, up to the point where the reading is examined: the
  oscillator and the sensor are powered and the processor sleeps through their warm-up.
\<close>

definition loop_wake :: "mcu \<Rightarrow> mcu" where
  "loop_wake m =
     (let m1 = digitalWrite T0_XO_POWER_PIN HIGH m;
          m2 = powerOn dht m1;
          m3 = sleep_enable (set_sleep_mode SLEEP_MODE_PWR_DOWN m2);
          m4 = m3\<lparr>WDTCR := push_bit WDIE 1 OR push_bit WDCE 1 OR push_bit WDE 1
                          OR push_bit WDP2 1 OR push_bit WDP1 1 OR push_bit WDP0 1\<rparr>
      in sleep_disable (sleep_cpu (emit WdtReset m4)))"

text \<open>
  The value a byte takes under \<open>data[i] &= v\<close> and under \<open>data[i] |= v\<close>.
\<close>

definition byte_and :: "uint8_t \<Rightarrow> uint16_t \<Rightarrow> uint8_t" where
  "byte_and b v = ucast ((ucast b :: uint16_t) AND v)"

definition byte_or :: "uint8_t \<Rightarrow> uint16_t \<Rightarrow> uint8_t" where
  "byte_or b v = ucast ((ucast b :: uint16_t) OR v)"

text \<open>
  Reading the digits back from a frame, by the layout of the wire format: the sign of the
  temperature is bit 3 of byte 8, its tenths the high nibble of byte 6, its ones and tens
  the low and the high nibble of byte 7; the ones of the humidity are the high nibble of
  byte 8 and its tens the low nibble of byte 9.
\<close>

definition decode_temperature:: "uint8_t list \<Rightarrow> bool \<times> nat \<times> nat \<times> nat" where
  "decode_temperature d =
     (bit (d ! 8) 3, unat (d ! 6) div 16, unat (d ! 7) mod 16, unat (d ! 7) div 16)"

definition decode_humidity :: "uint8_t list \<Rightarrow> nat \<times> nat" where
  "decode_humidity d = (unat (d ! 8) div 16, unat (d ! 9) mod 16)"

section \<open>The bit-level transmitter\<close>

lemma pinWrites_append: "pinWrites p (xs @ ys) = pinWrites p xs @ pinWrites p ys"
  by (induction p xs rule: pinWrites.induct) auto

lemma trace_writeSyncBit:
  "trace (writeSyncBit v tx m) = trace m @ [SleepCpu, DigitalWrite (pin tx) v]"
  by (simp add: writeSyncBit_def digitalWrite_def sleep_cpu_def emit_def)

lemma trace_sendBit:
  "trace (sendBit b tx m) = trace m @
     (if b then [SleepCpu, DigitalWrite (pin tx) LOW, SleepCpu, DigitalWrite (pin tx) HIGH,
                 SleepCpu, DigitalWrite (pin tx) HIGH, SleepCpu, DigitalWrite (pin tx) LOW]
      else [SleepCpu, DigitalWrite (pin tx) HIGH, SleepCpu, DigitalWrite (pin tx) LOW,
            SleepCpu, DigitalWrite (pin tx) LOW, SleepCpu, DigitalWrite (pin tx) HIGH])"
  by (simp add: sendBit_def sendOne_def sendZero_def trace_writeSyncBit)

lemma pinWrites_sendBit:
  "pinWrites (pin tx) (trace (sendBit b tx m)) =
     pinWrites (pin tx) (trace m) @ (if b then [LOW, HIGH, HIGH, LOW] else [HIGH, LOW, LOW, HIGH])"
  by (simp add: trace_sendBit pinWrites_append)

text \<open>
  Claim C2, as amended. For every sequence of logical bits, \<open>sendBit\<close> applied to the bits in
  turn writes four half-bit symbols per bit to the transmitter pin: the symbol pair of the
  inverted bit, then the symbol pair of the bit itself, where the pair of a 1 is
  (high, low) and the pair of a 0 is (low, high). The sequence 1, 0, 1, 1 is written as
  (low, high, high, low), (high, low, low, high), (low, high, high, low),
  (low, high, high, low).
\<close>

theorem sendBit_sequence_doubled:
  "pinWrites (pin tx) (trace (fold (\<lambda>b. sendBit b tx) bs m)) =
     pinWrites (pin tx) (trace m) @ concat (map (\<lambda>b. manchester (\<not> b) @ manchester b) bs)
   \<and> pinWrites (pin tx) (trace (fold (\<lambda>b. sendBit b tx) [True, False, True, True] m)) =
     pinWrites (pin tx) (trace m) @
       [LOW, HIGH, HIGH, LOW,  HIGH, LOW, LOW, HIGH,  LOW, HIGH, HIGH, LOW,  LOW, HIGH, HIGH, LOW]"
proof
  show "pinWrites (pin tx) (trace (fold (\<lambda>b. sendBit b tx) bs m)) =
     pinWrites (pin tx) (trace m) @ concat (map (\<lambda>b. manchester (\<not> b) @ manchester b) bs)"
    by (induction bs arbitrary: m) (simp_all add: pinWrites_sendBit manchester_def)
  show "pinWrites (pin tx) (trace (fold (\<lambda>b. sendBit b tx) [True, False, True, True] m)) =
     pinWrites (pin tx) (trace m) @
       [LOW, HIGH, HIGH, LOW,  HIGH, LOW, LOW, HIGH,  LOW, HIGH, HIGH, LOW,  LOW, HIGH, HIGH, LOW]"
    by (simp add: pinWrites_sendBit)
qed

text \<open>
  Claim C2, as stated, fails: the bits 1, 0, 1, 1 are not written as the eight symbols
  (high, low), (low, high), (high, low), (high, low).
\<close>

theorem sendBit_two_symbols_counterexample:
  "pinWrites TX_PIN (trace (fold (\<lambda>b. sendBit b (OS21Tx_new TX_PIN)) [True, False, True, True] mcu_reset))
     \<noteq> concat (map manchester [True, False, True, True])"
  by code_simp

lemma and_one_neq_zero_iff: "(y AND 1 \<noteq> 0) = bit y 0" for y :: "'a::len word"
  by (simp add: and_one_eq bit_0 mod_2_eq_odd)

lemma dataBit_bit: "dataBit tx i = bit (data tx ! (i div 8)) (i mod 8)"
proof -
  have "dataBit tx i = bit (drop_bit (i mod 8) (ucast (data tx ! (i div 8)) :: uint16_t)) 0"
    unfolding dataBit_def by (rule and_one_neq_zero_iff)
  also have "\<dots> = bit (ucast (data tx ! (i div 8)) :: uint16_t) (i mod 8)"
    by (simp add: bit_drop_bit_eq)
  also have "\<dots> = bit (data tx ! (i div 8)) (i mod 8)"
  proof -
    have "i mod 8 < 8" by simp
    then have "i mod 8 < 16" by linarith
    then show ?thesis by (simp add: bit_ucast_iff)
  qed
  finally show ?thesis .
qed

declare sendData_loop.simps [simp del]

lemma pinWrites_sendData_loop:
  "pinWrites (pin tx) (trace (sendData_loop tx i m)) =
     pinWrites (pin tx) (trace m) @
     concat (map (\<lambda>k. if dataBit tx k then [LOW, HIGH, HIGH, LOW] else [HIGH, LOW, LOW, HIGH])
                 [i..<DATA_LEN * 8])"
proof (induction tx i m rule: sendData_loop.induct)
  case (1 tx i m)
  show ?case
  proof (cases "i < DATA_LEN * 8")
    case True
    then show ?thesis
      using "1.IH" [OF True]
      by (subst sendData_loop.simps) (simp add: pinWrites_sendBit upt_conv_Cons)
  next
    case False
    then show ?thesis
      by (subst sendData_loop.simps) simp
  qed
qed

lemma regs_writeSyncBit:
  "TCCR0A (writeSyncBit v tx m) = TCCR0A m" "TCCR0B (writeSyncBit v tx m) = TCCR0B m"
  "OCR0A (writeSyncBit v tx m) = OCR0A m" "TIMSK (writeSyncBit v tx m) = TIMSK m"
  by (simp_all add: writeSyncBit_def digitalWrite_def sleep_cpu_def emit_def)

lemma regs_sendBit:
  "TCCR0A (sendBit b tx m) = TCCR0A m" "TCCR0B (sendBit b tx m) = TCCR0B m"
  "OCR0A (sendBit b tx m) = OCR0A m" "TIMSK (sendBit b tx m) = TIMSK m"
  by (simp_all add: sendBit_def sendOne_def sendZero_def regs_writeSyncBit)

lemma configureTimer_saves:
  "configureTimer tx m = (tx1, m1) \<Longrightarrow>
     old_TCCR0A tx1 = TCCR0A m \<and> old_TCCR0B tx1 = TCCR0B m \<and>
     old_OCR0A tx1 = OCR0A m \<and> old_TIMSK tx1 = TIMSK m \<and>
     pin tx1 = pin tx \<and> data tx1 = data tx \<and> trace m1 = trace m"
  by (auto simp: configureTimer_def Let_def cli_def sei_def sleep_enable_def set_sleep_mode_def)

lemma restoreTimer_regs:
  "TCCR0A (restoreTimer tx m) = old_TCCR0A tx" "TCCR0B (restoreTimer tx m) = old_TCCR0B tx"
  "OCR0A (restoreTimer tx m) = old_OCR0A tx" "TIMSK (restoreTimer tx m) = old_TIMSK tx"
  "trace (restoreTimer tx m) = trace m"
  by (simp_all add: restoreTimer_def Let_def cli_def sei_def sleep_disable_def)

text \<open>
  Claim C6. When \<open>sendData\<close> returns, the registers \<open>TCCR0A\<close>, \<open>TCCR0B\<close>, \<open>OCR0A\<close> and
  \<open>TIMSK\<close> hold the values they held when it was called.
\<close>

theorem sendData_restores_timer:
  "TCCR0A (snd (sendData tx m)) = TCCR0A m \<and> TCCR0B (snd (sendData tx m)) = TCCR0B m \<and>
   OCR0A (snd (sendData tx m)) = OCR0A m \<and> TIMSK (snd (sendData tx m)) = TIMSK m"
proof -
  obtain tx1 m1 where c: "configureTimer tx m = (tx1, m1)"
    by (cases "configureTimer tx m")
  have "snd (sendData tx m) = restoreTimer tx1 (writeSyncBit LOW tx1 (sendData_loop tx1 0 m1))"
    by (simp add: sendData_def c)
  then show ?thesis
    using configureTimer_saves [OF c] by (simp add: restoreTimer_regs)
qed

lemma dataBit_cong: "data tx1 = data tx \<Longrightarrow> dataBit tx1 = dataBit tx"
  by (simp add: dataBit_def fun_eq_iff)

lemma pinWrites_sendData:
  "pinWrites (pin tx) (trace (snd (sendData tx m))) =
     pinWrites (pin tx) (trace m) @
     concat (map (\<lambda>k. if dataBit tx k then [LOW, HIGH, HIGH, LOW] else [HIGH, LOW, LOW, HIGH])
                 [0..<DATA_LEN * 8]) @ [LOW]"
proof -
  obtain tx1 m1 where c: "configureTimer tx m = (tx1, m1)"
    by (cases "configureTimer tx m")
  note s = configureTimer_saves [OF c]
  have "snd (sendData tx m) = restoreTimer tx1 (writeSyncBit LOW tx1 (sendData_loop tx1 0 m1))"
    by (simp add: sendData_def c)
  moreover have "pinWrites (pin tx1) (trace (sendData_loop tx1 0 m1)) =
     pinWrites (pin tx1) (trace m1) @
     concat (map (\<lambda>k. if dataBit tx1 k then [LOW, HIGH, HIGH, LOW] else [HIGH, LOW, LOW, HIGH])
                 [0..<DATA_LEN * 8])"
    by (rule pinWrites_sendData_loop)
  ultimately show ?thesis
    using s dataBit_cong [of tx1 tx]
    by (simp add: restoreTimer_regs trace_writeSyncBit pinWrites_append)
qed

text \<open>
  Claim C9. \<open>sendData\<close> writes, for each of the 96 bits of the frame (bytes in array order,
  least significant bit first), four values to the transmitter pin: low, high, high, low
  for a 1 and high, low, low, high for a 0; then it writes one more low, which is the last
  write of the call.
\<close>

theorem sendData_pin_writes:
  "pinWrites (pin tx) (trace (snd (sendData tx m))) =
     pinWrites (pin tx) (trace m) @
     concat (map (\<lambda>i. if bit (data tx ! (i div 8)) (i mod 8)
                        then [LOW, HIGH, HIGH, LOW] else [HIGH, LOW, LOW, HIGH]) [0..<96])
     @ [LOW]
   \<and> last (pinWrites (pin tx) (trace (snd (sendData tx m)))) = LOW"
  by (simp add: pinWrites_sendData dataBit_bit DATA_LEN_def)


section \<open>The frame encoder\<close>

lemma ucast_and16: "(ucast ((ucast (b :: uint8_t) :: uint16_t) AND v) :: uint8_t) = b AND ucast v"
  by (rule bit_word_eqI) (auto simp: bit_simps)

lemma ucast_or16: "(ucast ((ucast (b :: uint8_t) :: uint16_t) OR v) :: uint8_t) = b OR ucast v"
  by (rule bit_word_eqI) (auto simp: bit_simps)

lemma data_and_eq: "data (and_eq i v tx) = (data tx)[i := data tx ! i AND ucast v]"
  by (simp add: and_eq_def ucast_and16)

lemma data_or_eq: "data (or_eq i v tx) = (data tx)[i := data tx ! i OR ucast v]"
  by (simp add: or_eq_def ucast_or16)


text \<open>
  Claim C8. For a channel of 1, 2 or 3, \<open>setChannel\<close> succeeds, the high nibble of byte 4
  becomes 0x10, 0x20 or 0x40 respectively, the low nibble of byte 4 keeps its value, and
  no other byte of the frame changes.
\<close>

theorem setChannel_one_hot:
  assumes "channel = 1 \<or> channel = 2 \<or> channel = 3" and "length (data tx) = DATA_LEN"
  shows "\<exists>tx'. setChannel channel tx = Inr tx' \<and>
           data tx' ! 4 AND 0xf0 = (if channel = 1 then 0x10 else if channel = 2 then 0x20 else 0x40) \<and>
           data tx' ! 4 AND 0x0f = data tx ! 4 AND 0x0f \<and>
           (\<forall>i < DATA_LEN. i \<noteq> 4 \<longrightarrow> data tx' ! i = data tx ! i)"
  using assms
  by (auto simp: setChannel_def DATA_LEN_def data_and_eq data_or_eq bit.conj_disj_distrib2 word_bw_assocs)

theorem setChannel_one_hot_witness:
  "\<exists>tx'. setChannel 2 (OS21Tx_new TX_PIN) = Inr tx' \<and>
          data tx' ! 4 AND 0xf0 = 0x20 \<and> data tx' ! 4 AND 0x0f = 0 \<and> data tx' ! 3 = 0x2d"
proof -
  have c: "(2 :: uint8_t) = 1 \<or> (2 :: uint8_t) = 2 \<or> (2 :: uint8_t) = 3"
    by simp
  have l: "length (data (OS21Tx_new TX_PIN)) = DATA_LEN"
    by (simp add: OS21Tx_new_def DATA_LEN_def)
  show ?thesis
    using setChannel_one_hot [OF c l] by (auto simp: OS21Tx_new_def DATA_LEN_def)
qed

section \<open>The checksum and the CRC against their reference definitions\<close>

lemma mask_bit_test: "(drop_bit i msk AND 0x1 = 0) = (\<not> bit msk i)" for msk :: uint64_t
  using and_one_neq_zero_iff [of "drop_bit i msk"] by (auto simp add: bit_drop_bit_eq)

lemma unat_and_mask: "unat (x AND mask n) = unat x mod 2 ^ n" for x :: "'a::len word"
proof -
  have "unat (x AND mask n) = unat (take_bit n x)"
    by (simp only: take_bit_eq_mask)
  also have "\<dots> = take_bit n (unat x)"
    by (rule unsigned_take_bit_eq)
  finally show ?thesis
    by (simp only: take_bit_eq_mod)
qed

lemma unat_drop_bit_div: "unat (drop_bit n x) = unat x div 2 ^ n" for x :: "'a::len word"
proof -
  have "unat (drop_bit n x) = drop_bit n (unat x)"
    by (rule unat_drop_bit_eq)
  also have "\<dots> = unat x div 2 ^ n"
    by (rule drop_bit_eq_div)
  finally show ?thesis .
qed

lemma unat_ucast_8_16: "unat (ucast (b :: uint8_t) :: uint16_t) = unat b"
proof -
  have "unat b < 2 ^ 8"
    using unsigned_less [of b, where 'a = nat] by simp
  then have "unat b < 2 ^ 16"
    by simp
  then show ?thesis
    by (simp add: unsigned_ucast_eq take_bit_nat_eq_self)
qed

lemma unat_nibbleAt:
  assumes "nibbleAt buf i = Inr n"
  shows "unat n = nibble_spec buf i"
proof -
  let ?b = "buf ! (i div 2)"
  have n: "n = drop_bit ((i mod 2) * 4) (ucast ?b :: uint16_t) AND 0xf"
    using assms by (auto simp: nibbleAt_def split: if_splits)
  have m: "(0xf :: uint16_t) = mask 4" by (simp add: mask_eq_exp_minus_1)
  show ?thesis
    unfolding n m nibble_spec_def
    by (simp only: unat_and_mask unat_drop_bit_div unat_ucast_8_16 mult.commute) simp
qed

lemma sum_step_refines:
  fixes s n :: uint16_t
  assumes "unat s < 256" and "unat n < 16"
  shows "unat (((s + n) + (drop_bit 8 (s + n) AND 0x1)) AND 0xff) = sum_step_spec (unat s) (unat n)"
proof -
  have m1: "(0x1 :: uint16_t) = mask 1" by (simp add: mask_eq_exp_minus_1)
  have m8: "(0xff :: uint16_t) = mask 8" by (simp add: mask_eq_exp_minus_1)
  have a: "unat (s + n) = unat s + unat n"
    using assms by (simp add: unat_add_lem [THEN iffD1])
  have b: "unat (drop_bit 8 (s + n) AND 0x1) = ((unat s + unat n) div 256) mod 2"
    unfolding m1 by (simp only: unat_and_mask unat_drop_bit_div a) simp
  have c: "unat ((s + n) + (drop_bit 8 (s + n) AND 0x1)) = (unat s + unat n) + ((unat s + unat n) div 256) mod 2"
    using assms a b by (simp add: unat_add_lem [THEN iffD1])
  show ?thesis
    unfolding m8 by (simp only: unat_and_mask c sum_step_spec_def Let_def) simp
qed

declare checksumSimple_loop.simps [simp del]

lemma nibbleAt_Inr: "i div 2 < length buf \<Longrightarrow> \<exists>n. nibbleAt buf i = Inr n"
  by (simp add: nibbleAt_def)

lemma nibbleAt_Inl: "\<not> i div 2 < length buf \<Longrightarrow> nibbleAt buf i = Inl (OutOfBounds (i div 2))"
  by (simp add: nibbleAt_def)

lemma checksumSimple_loop_refines:
  "unat s < 256 \<Longrightarrow>
   checksumSimple_loop buf msk i s =
     (case find (\<lambda>k. length buf \<le> k div 2) (filter (bit msk) [i..<64]) of
        Some k \<Rightarrow> Inl (OutOfBounds (k div 2))
      | None \<Rightarrow> Inr (of_nat (foldl sum_step_spec (unat s)
                                (map (nibble_spec buf) (filter (bit msk) [i..<64])))))"
proof (induction buf msk i s rule: checksumSimple_loop.induct)
  case (1 buf msk i s)
  define rest where "rest = filter (bit msk) [i + 1..<64]"
  show ?case
  proof (cases "i < 64")
    case False
    then show ?thesis
      by (subst checksumSimple_loop.simps) simp
  next
    case i: True
    then have upt: "[i..<64] = i # [i + 1..<64]"
      by (simp add: upt_conv_Cons)
    show ?thesis
    proof (cases "bit msk i")
      case False
      then have t: "drop_bit i msk AND 0x1 = 0"
        by (simp add: mask_bit_test)
      have sel: "filter (bit msk) [i..<64] = rest"
        unfolding upt rest_def using False by simp
      have "checksumSimple_loop buf msk i s = checksumSimple_loop buf msk (i + 1) s"
        by (subst checksumSimple_loop.simps) (simp add: i t)
      then show ?thesis
        unfolding sel using "1.IH"(1) [OF i t "1.prems"] by (simp only: rest_def)
    next
      case b: True
      then have t: "drop_bit i msk AND 0x1 \<noteq> 0"
        by (simp add: mask_bit_test)
      have sel: "filter (bit msk) [i..<64] = i # rest"
        unfolding upt rest_def using b by simp
      show ?thesis
      proof (cases "i div 2 < length buf")
        case False
        then show ?thesis
          unfolding sel by (subst checksumSimple_loop.simps) (simp add: i t nibbleAt_Inl)
      next
        case True
        then obtain n where n: "nibbleAt buf i = Inr n"
          using nibbleAt_Inr by blast
        define s3 where "s3 = ((s + n) + (drop_bit 8 (s + n) AND 0x1)) AND 0xff"
        have un: "unat n = nibble_spec buf i"
          by (rule unat_nibbleAt [OF n])
        then have "unat n < 16"
          by (simp add: nibble_spec_def)
        then have u3: "unat s3 = sum_step_spec (unat s) (nibble_spec buf i)"
          unfolding s3_def using sum_step_refines [OF "1.prems"] un by simp
        then have "unat s3 < 256"
          by (simp add: sum_step_spec_def Let_def)
        then have ih: "checksumSimple_loop buf msk (i + 1) s3 =
          (case find (\<lambda>k. length buf \<le> k div 2) rest of
             Some k \<Rightarrow> Inl (OutOfBounds (k div 2))
           | None \<Rightarrow> Inr (of_nat (foldl sum_step_spec (unat s3) (map (nibble_spec buf) rest))))"
          unfolding rest_def s3_def by (rule "1.IH"(2) [OF i t n refl refl refl])
        have "checksumSimple_loop buf msk i s = checksumSimple_loop buf msk (i + 1) s3"
          by (subst checksumSimple_loop.simps) (simp add: i t n s3_def Let_def)
        also note ih
        finally show ?thesis
          unfolding sel using True by (simp add: u3 cong: option.case_cong)
      qed
    qed
  qed
qed

lemma ucast_of_nat_16_8: "(ucast (of_nat k :: uint16_t) :: uint8_t) = of_nat k"
  by (rule bit_word_eqI) (auto simp: bit_simps)

lemma find_out_of_range_None:
  assumes "\<forall>i. bit msk i \<longrightarrow> i div 2 < n"
  shows "find (\<lambda>k. n \<le> k div 2) (filter (bit msk) xs) = None"
  using assms by (auto simp: find_None_iff not_le)

lemma find_in_frame_None:
  assumes "length buf = DATA_LEN" and "\<forall>i. bit msk i \<longrightarrow> i < 24"
  shows "find (\<lambda>k. length buf \<le> k div 2) (filter (bit msk) xs) = None"
proof (rule find_out_of_range_None, intro allI impI)
  fix i assume "bit msk i"
  with assms(2) have "i < 24" by blast
  then show "i div 2 < length buf" using assms(1) by (simp add: DATA_LEN_def)
qed

lemma only_bit_63: "filter (bit (0x8000000000000000 :: uint64_t)) [0..<64] = [63]"
  by code_simp

lemma only_bit_24: "filter (bit (0x1000000 :: uint64_t)) [0..<64] = [24]"
  by code_simp

lemma sel_SUM_MASK: "selected_spec SUM_MASK = [5..<20]"
  by code_simp

lemma sel_CRC_MASK: "selected_spec CRC_MASK = [5, 6, 7, 8, 9, 12, 13, 14, 15, 16, 17, 18, 19]"
  by code_simp

lemma bit_SUM_MASK_below_24: "\<forall>i. bit SUM_MASK i \<longrightarrow> i < 24"
proof (intro allI impI)
  fix i assume i: "bit SUM_MASK i"
  then have "i < 64"
    using bit_imp_le_length [of SUM_MASK i] by simp
  with i have "i \<in> set (selected_spec SUM_MASK)"
    by (simp add: selected_spec_def)
  then have "i \<in> {5..<20}"
    unfolding sel_SUM_MASK set_upt .
  then show "i < 24"
    by simp
qed

lemma bit_CRC_MASK_below_24: "\<forall>i. bit CRC_MASK i \<longrightarrow> i < 24"
proof (intro allI impI)
  fix i assume i: "bit CRC_MASK i"
  then have "i < 64"
    using bit_imp_le_length [of CRC_MASK i] by simp
  with i have "i \<in> set (selected_spec CRC_MASK)"
    by (simp add: selected_spec_def)
  then show "i < 24"
    unfolding sel_CRC_MASK by auto
qed

lemma length_example_data: "length example_data = DATA_LEN"
  by (simp add: example_data_def DATA_LEN_def)

text \<open>
  Claim C3, as amended. For every 12-byte buffer and every mask whose set bits all lie
  below position 24, \<open>checksumSimple\<close> returns the digest of the reference definition of
  the masked nibble sum: the selected nibbles of positions 0 to 63, low nibble of a byte
  first, added in order into a sum whose bit 8 is folded back after each addition and
  which is then reduced modulo 256.
\<close>

theorem checksumSimple_refines_spec:
  assumes "length buf = DATA_LEN" and "\<forall>i. bit msk i \<longrightarrow> i < 24"
  shows "checksumSimple buf msk = Inr (checksumSimple_spec buf msk)"
proof -
  have "find (\<lambda>k. length buf \<le> k div 2) (filter (bit msk) [0..<64]) = None"
    by (rule find_in_frame_None [OF assms])
  then show ?thesis
    by (simp add: checksumSimple_def checksumSimple_spec_def selected_spec_def
        checksumSimple_loop_refines ucast_of_nat_16_8)
qed

theorem checksumSimple_refines_spec_witness:
  "checksumSimple example_data SUM_MASK = Inr (checksumSimple_spec example_data SUM_MASK) \<and>
   checksumSimple_spec example_data SUM_MASK = 0x4a"
proof -
  have "checksumSimple_spec example_data SUM_MASK = 0x4a"
    by code_simp
  with checksumSimple_refines_spec [OF length_example_data bit_SUM_MASK_below_24]
  show ?thesis
    by simp
qed

text \<open>
  Claim C3, as stated for every mask, fails: with bit 24 of the mask set,
  \<open>checksumSimple\<close> reads byte 12 of the 12-byte buffer and returns no digest of the frame.
\<close>

theorem checksumSimple_every_mask_counterexample:
  "checksumSimple example_data 0x1000000 = Inl (OutOfBounds 12) \<and>
   checksumSimple example_data 0x1000000 \<noteq> Inr (checksumSimple_spec example_data 0x1000000)"
proof -
  have "find (\<lambda>k. length example_data \<le> k div 2) (filter (bit (0x1000000 :: uint64_t)) [0..<64])
        = Some 24"
    unfolding only_bit_24 by (simp add: example_data_def)
  then have "checksumSimple example_data 0x1000000 = Inl (OutOfBounds 12)"
    by (simp add: checksumSimple_def checksumSimple_loop_refines)
  then show ?thesis
    by simp
qed

lemma and_256_test: "(x AND 0x100 \<noteq> 0) = bit x 8" for x :: uint16_t
proof -
  have "(0x100 :: uint16_t) = 2 ^ 8" by simp
  then show ?thesis
    by (simp only: and_exp_eq_0_iff_not_bit) simp
qed

lemma ucast_push_bit_or:
  "(ucast (push_bit k s OR of_bool b :: uint16_t) :: uint8_t) = push_bit k (ucast s) OR of_bool b"
  by (rule bit_word_eqI) (auto simp: bit_simps)

lemma ucast_crc_step: "(ucast (crc_step s b) :: uint8_t) = crc8_shift_spec (ucast s) b"
proof -
  let ?s2 = "push_bit 1 s OR of_bool b :: uint16_t"
  have "bit ?s2 8 = bit s 7"
    by (simp only: bit_or_iff bit_push_bit_iff bit_of_bool_iff) (simp add: possible_bit_word)
  also have "\<dots> = bit (ucast s :: uint8_t) 7"
    by (simp add: bit_ucast_iff)
  finally have t: "bit ?s2 8 = bit (ucast s :: uint8_t) 7" .
  have u: "(ucast ?s2 :: uint8_t) = push_bit 1 (ucast s) OR of_bool b"
    by (rule ucast_push_bit_or)
  have x: "(ucast (?s2 XOR 0x7) :: uint8_t) = ucast ?s2 XOR 0x07"
    by (simp add: unsigned_xor_eq)
  show ?thesis
    unfolding crc_step_def crc8_shift_spec_def Let_def and_256_test t CRC_POLY_def
    using u x by simp
qed

lemma bit_of_nibble:
  "ucast (ucast (drop_bit j (ucast (nibble :: uint8_t) :: uint16_t) AND 0x1) :: uint8_t) = (of_bool (bit (unat nibble) j) :: uint16_t)"
proof -
  have "drop_bit j (ucast nibble :: uint16_t) AND 0x1 = of_bool (bit (ucast nibble :: uint16_t) j)"
    by (simp add: and_one_eq mod_2_eq_odd bit_iff_odd_drop_bit)
  also have "bit (ucast nibble :: uint16_t) j = bit (unat nibble) j"
    by (auto simp add: bit_ucast_iff bit_unsigned_iff dest: bit_imp_le_length)
  finally show ?thesis
    by simp
qed

declare checksumCRC_bits.simps [simp del] checksumCRC_flush.simps [simp del]
  checksumCRC_loop.simps [simp del]

lemma checksumCRC_bits_step:
  "0 \<le> j \<Longrightarrow>
   checksumCRC_bits j nibble s =
     checksumCRC_bits (j - 1) nibble (crc_step s (bit (unat nibble) (nat j)))"
  by (subst checksumCRC_bits.simps) (simp only: crc_step_def Let_def bit_of_nibble if_True)

lemma checksumCRC_bits_done: "j < 0 \<Longrightarrow> checksumCRC_bits j nibble s = s"
  by (subst checksumCRC_bits.simps) simp

lemma checksumCRC_bits_3:
  "checksumCRC_bits 3 nibble s = foldl crc_step s (nibble_bits_spec (unat nibble))"
  by (simp add: checksumCRC_bits_step checksumCRC_bits_done nibble_bits_spec_def)

lemma checksumCRC_flush_step:
  "i < 8 \<Longrightarrow> checksumCRC_flush i s = checksumCRC_flush (i + 1) (crc_step s False)"
  by (subst checksumCRC_flush.simps) (simp add: crc_step_def Let_def)

lemma checksumCRC_flush_done: "\<not> i < 8 \<Longrightarrow> checksumCRC_flush i s = s"
  by (subst checksumCRC_flush.simps) simp

lemma checksumCRC_flush_0:
  "checksumCRC_flush 0 s = foldl crc_step s (replicate 8 False)"
  by (simp add: checksumCRC_flush_step checksumCRC_flush_done eval_nat_numeral)

lemma ucast_ucast_8_16: "(ucast (ucast (b :: uint8_t) :: uint16_t) :: uint8_t) = b"
  by (rule bit_word_eqI) (auto simp: bit_simps)

lemma ucast_foldl_crc_step:
  "(ucast (foldl crc_step s bs) :: uint8_t) = foldl crc8_shift_spec (ucast s) bs"
  by (induction bs arbitrary: s) (simp_all add: ucast_crc_step)

lemma ucast_nibbleAt:
  assumes "nibbleAt buf i = Inr n"
  shows "unat (ucast n :: uint8_t) = nibble_spec buf i"
proof -
  have "unat n < 16"
    using unat_nibbleAt [OF assms] by (simp add: nibble_spec_def)
  then have "unat (ucast n :: uint8_t) = unat n"
    by (simp add: unsigned_ucast_eq take_bit_nat_eq_self)
  then show ?thesis
    using unat_nibbleAt [OF assms] by simp
qed

lemma checksumCRC_loop_refines:
  "map_sum id (ucast :: uint16_t \<Rightarrow> uint8_t) (checksumCRC_loop buf msk i s) =
     (case find (\<lambda>k. length buf \<le> k div 2) (filter (bit msk) [i..<64]) of
        Some k \<Rightarrow> Inl (OutOfBounds (k div 2))
      | None \<Rightarrow> Inr (foldl crc8_shift_spec (ucast s)
                    (concat (map (\<lambda>k. nibble_bits_spec (nibble_spec buf k))
                                 (filter (bit msk) [i..<64])))))"
proof (induction buf msk i s rule: checksumCRC_loop.induct)
  case (1 buf msk i s)
  define rest where "rest = filter (bit msk) [i + 1..<64]"
  show ?case
  proof (cases "i < 64")
    case False
    then show ?thesis
      by (subst checksumCRC_loop.simps) simp
  next
    case i: True
    then have upt: "[i..<64] = i # [i + 1..<64]"
      by (simp add: upt_conv_Cons)
    show ?thesis
    proof (cases "bit msk i")
      case False
      then have t: "drop_bit i msk AND 0x1 = 0"
        by (simp add: mask_bit_test)
      have sel: "filter (bit msk) [i..<64] = rest"
        unfolding upt rest_def using False by simp
      have "checksumCRC_loop buf msk i s = checksumCRC_loop buf msk (i + 1) s"
        by (subst checksumCRC_loop.simps) (simp add: i t)
      then show ?thesis
        unfolding sel using "1.IH"(1) [OF i t] by (simp only: rest_def)
    next
      case b: True
      then have t: "drop_bit i msk AND 0x1 \<noteq> 0"
        by (simp add: mask_bit_test)
      have sel: "filter (bit msk) [i..<64] = i # rest"
        unfolding upt rest_def using b by simp
      show ?thesis
      proof (cases "i div 2 < length buf")
        case False
        then show ?thesis
          unfolding sel by (subst checksumCRC_loop.simps) (simp add: i t nibbleAt_Inl)
      next
        case True
        then obtain n where n: "nibbleAt buf i = Inr n"
          using nibbleAt_Inr by blast
        define s' where "s' = checksumCRC_bits 3 (ucast n) s"
        have u: "(ucast s' :: uint8_t) =
                 foldl crc8_shift_spec (ucast s) (nibble_bits_spec (nibble_spec buf i))"
          unfolding s'_def
          by (simp only: checksumCRC_bits_3 ucast_foldl_crc_step ucast_nibbleAt [OF n])
        have ih: "map_sum id (ucast :: uint16_t \<Rightarrow> uint8_t) (checksumCRC_loop buf msk (i + 1) s') =
          (case find (\<lambda>k. length buf \<le> k div 2) rest of
             Some k \<Rightarrow> Inl (OutOfBounds (k div 2))
           | None \<Rightarrow> Inr (foldl crc8_shift_spec (ucast s')
                    (concat (map (\<lambda>k. nibble_bits_spec (nibble_spec buf k)) rest))))"
          unfolding rest_def s'_def by (rule "1.IH"(2) [OF i t n refl])
        have "checksumCRC_loop buf msk i s = checksumCRC_loop buf msk (i + 1) s'"
          by (subst checksumCRC_loop.simps) (simp add: i t n s'_def Let_def)
        then have "map_sum id (ucast :: uint16_t \<Rightarrow> uint8_t) (checksumCRC_loop buf msk i s) =
                   map_sum id ucast (checksumCRC_loop buf msk (i + 1) s')"
          by simp
        also note ih
        finally have fin: "map_sum id (ucast :: uint16_t \<Rightarrow> uint8_t) (checksumCRC_loop buf msk i s) =
          (case find (\<lambda>k. length buf \<le> k div 2) rest of
             Some k \<Rightarrow> Inl (OutOfBounds (k div 2))
           | None \<Rightarrow> Inr (foldl crc8_shift_spec (ucast s')
                    (concat (map (\<lambda>k. nibble_bits_spec (nibble_spec buf k)) rest))))" .
        have spec: "(case find (\<lambda>k. length buf \<le> k div 2) (i # rest) of
             Some k \<Rightarrow> Inl (OutOfBounds (k div 2))
           | None \<Rightarrow> Inr (foldl crc8_shift_spec (ucast s)
                    (concat (map (\<lambda>k. nibble_bits_spec (nibble_spec buf k)) (i # rest))))) =
          (case find (\<lambda>k. length buf \<le> k div 2) rest of
             Some k \<Rightarrow> Inl (OutOfBounds (k div 2))
           | None \<Rightarrow> Inr (foldl crc8_shift_spec (ucast s')
                    (concat (map (\<lambda>k. nibble_bits_spec (nibble_spec buf k)) rest))))"
          using True by (simp add: u cong: option.case_cong)
        show ?thesis
          unfolding sel spec by (rule fin)
      qed
    qed
  qed
qed

text \<open>
  Claim C4, as amended. For every 12-byte buffer, every mask whose set bits all lie below
  position 24 and every initial value, \<open>checksumCRC\<close> returns the digest of the reference
  CRC-8 with polynomial 7: the register starts as the initial value, the four bits of
  every selected nibble are shifted in most significant first, the polynomial is added
  whenever the bit shifted out of the 8-bit register is 1, and eight zero bits follow.
\<close>

theorem checksumCRC_refines_spec:
  assumes "length buf = DATA_LEN" and "\<forall>i. bit msk i \<longrightarrow> i < 24"
  shows "checksumCRC buf msk iv = Inr (checksumCRC_spec buf msk iv)"
proof -
  let ?F = "\<lambda>r :: uint8_t. foldl crc8_shift_spec r (replicate 8 False)"
  have f: "find (\<lambda>k. length buf \<le> k div 2) (filter (bit msk) [0..<64]) = None"
    by (rule find_in_frame_None [OF assms])
  have "checksumCRC buf msk iv =
        map_sum id ?F (map_sum id (ucast :: uint16_t \<Rightarrow> uint8_t) (checksumCRC_loop buf msk 0 (ucast iv)))"
    by (simp add: checksumCRC_def checksumCRC_flush_0 ucast_foldl_crc_step split: sum.split)
  also have "\<dots> = Inr (checksumCRC_spec buf msk iv)"
    unfolding checksumCRC_loop_refines
    by (simp add: f checksumCRC_spec_def selected_spec_def Let_def ucast_ucast_8_16)
  finally show ?thesis .
qed

theorem checksumCRC_refines_spec_witness:
  "checksumCRC example_data CRC_MASK CRC_IV = Inr (checksumCRC_spec example_data CRC_MASK CRC_IV) \<and>
   checksumCRC_spec example_data CRC_MASK CRC_IV = 0x55"
proof -
  have "checksumCRC_spec example_data CRC_MASK CRC_IV = 0x55"
    by code_simp
  with checksumCRC_refines_spec [OF length_example_data bit_CRC_MASK_below_24]
  show ?thesis
    by simp
qed

text \<open>
  Claim C4, as stated for every mask, fails: with bit 24 of the mask set, \<open>checksumCRC\<close>
  reads byte 12 of the 12-byte buffer and returns no digest of the frame.
\<close>

theorem checksumCRC_every_mask_counterexample:
  "checksumCRC example_data 0x1000000 CRC_IV = Inl (OutOfBounds 12) \<and>
   checksumCRC example_data 0x1000000 CRC_IV
     \<noteq> Inr (checksumCRC_spec example_data 0x1000000 CRC_IV)"
proof -
  have f: "find (\<lambda>k. length example_data \<le> k div 2) (filter (bit (0x1000000 :: uint64_t)) [0..<64])
        = Some 24"
    unfolding only_bit_24 by (simp add: example_data_def)
  have "map_sum id (ucast :: uint16_t \<Rightarrow> uint8_t)
          (checksumCRC_loop example_data 0x1000000 0 (ucast CRC_IV)) = Inl (OutOfBounds 12)"
    unfolding checksumCRC_loop_refines by (simp add: f)
  then have "checksumCRC_loop example_data 0x1000000 0 (ucast CRC_IV) = Inl (OutOfBounds 12)"
    by (cases "checksumCRC_loop example_data 0x1000000 0 (ucast CRC_IV)") auto
  then have "checksumCRC example_data 0x1000000 CRC_IV = Inl (OutOfBounds 12)"
    by (simp add: checksumCRC_def)
  then show ?thesis
    by simp
qed

section \<open>Bounds of the buffer reads\<close>

text \<open>
  Claim C10. For a 12-byte buffer and a mask whose set bits all lie below position 24,
  \<open>checksumSimple\<close> and \<open>checksumCRC\<close> return a digest, that is, none of their reads
  \<open>data[i / 2]\<close> is past the end of the buffer. The set bits of \<open>SUM_MASK\<close> and of
  \<open>CRC_MASK\<close> all lie at positions 5 to 19. For the mask with only bit 63 set this fails:
  both functions read byte 31.
\<close>

theorem checksum_reads_in_bounds:
  assumes "length buf = DATA_LEN"
  shows "((\<forall>i. bit msk i \<longrightarrow> i < 24) \<longrightarrow>
            (\<exists>v. checksumSimple buf msk = Inr v) \<and> (\<exists>v. checksumCRC buf msk iv = Inr v))
       \<and> (\<forall>i. bit SUM_MASK i \<longrightarrow> 5 \<le> i \<and> i \<le> 19)
       \<and> (\<forall>i. bit CRC_MASK i \<longrightarrow> 5 \<le> i \<and> i \<le> 19)
       \<and> checksumSimple buf 0x8000000000000000 = Inl (OutOfBounds 31)
       \<and> checksumCRC buf 0x8000000000000000 iv = Inl (OutOfBounds 31)"
proof (intro conjI impI)
  assume b: "\<forall>i. bit msk i \<longrightarrow> i < 24"
  have "\<forall>i. bit msk i \<longrightarrow> i div 2 < length buf"
  proof (intro allI impI)
    fix i assume "bit msk i"
    with b have "i < 24" by blast
    then show "i div 2 < length buf" using assms by (simp add: DATA_LEN_def)
  qed
  then have f: "find (\<lambda>k. length buf \<le> k div 2) (filter (bit msk) [0..<64]) = None"
    by (rule find_out_of_range_None)
  show "\<exists>v. checksumSimple buf msk = Inr v"
    by (simp add: checksumSimple_def checksumSimple_loop_refines f)
  have "map_sum id (ucast :: uint16_t \<Rightarrow> uint8_t) (checksumCRC_loop buf msk 0 (ucast iv)) =
        Inr (foldl crc8_shift_spec (ucast (ucast iv :: uint16_t))
               (concat (map (\<lambda>k. nibble_bits_spec (nibble_spec buf k)) (filter (bit msk) [0..<64]))))"
    unfolding checksumCRC_loop_refines by (simp add: f)
  then obtain s where "checksumCRC_loop buf msk 0 (ucast iv) = Inr s"
    by (cases "checksumCRC_loop buf msk 0 (ucast iv)") auto
  then show "\<exists>v. checksumCRC buf msk iv = Inr v"
    by (simp add: checksumCRC_def)
next
  show "\<forall>i. bit SUM_MASK i \<longrightarrow> 5 \<le> i \<and> i \<le> 19"
  proof (intro allI impI)
    fix i assume i: "bit SUM_MASK i"
    then have "i < 64"
      using bit_imp_le_length [of SUM_MASK i] by simp
    with i have "i \<in> set (selected_spec SUM_MASK)"
      by (simp add: selected_spec_def)
    then have "i \<in> {5..<20}"
      unfolding sel_SUM_MASK set_upt .
    then show "5 \<le> i \<and> i \<le> 19"
      by auto
  qed
next
  show "\<forall>i. bit CRC_MASK i \<longrightarrow> 5 \<le> i \<and> i \<le> 19"
  proof (intro allI impI)
    fix i assume i: "bit CRC_MASK i"
    then have "i < 64"
      using bit_imp_le_length [of CRC_MASK i] by simp
    with i have "i \<in> set (selected_spec CRC_MASK)"
      by (simp add: selected_spec_def)
    then show "5 \<le> i \<and> i \<le> 19"
      unfolding sel_CRC_MASK by auto
  qed
next
  have f: "find (\<lambda>k. length buf \<le> k div 2) (filter (bit (0x8000000000000000 :: uint64_t)) [0..<64]) = Some 63"
    unfolding only_bit_63 using assms by (simp add: DATA_LEN_def)
  show "checksumSimple buf 0x8000000000000000 = Inl (OutOfBounds 31)"
    by (simp add: checksumSimple_def checksumSimple_loop_refines f)
  have "map_sum id (ucast :: uint16_t \<Rightarrow> uint8_t) (checksumCRC_loop buf 0x8000000000000000 0 (ucast iv)) =
        Inl (OutOfBounds 31)"
    unfolding checksumCRC_loop_refines by (simp add: f)
  then have "checksumCRC_loop buf 0x8000000000000000 0 (ucast iv) = Inl (OutOfBounds 31)"
    by (cases "checksumCRC_loop buf 0x8000000000000000 0 (ucast iv)") auto
  then show "checksumCRC buf 0x8000000000000000 iv = Inl (OutOfBounds 31)"
    by (simp add: checksumCRC_def)
qed


theorem checksum_reads_in_bounds_witness:
  "length (data (OS21Tx_new TX_PIN)) = DATA_LEN \<and>
   (\<exists>v. checksumSimple (data (OS21Tx_new TX_PIN)) SUM_MASK = Inr v) \<and>
   (\<exists>v. checksumCRC (data (OS21Tx_new TX_PIN)) SUM_MASK CRC_IV = Inr v) \<and>
   checksumSimple (data (OS21Tx_new TX_PIN)) 0x8000000000000000 = Inl (OutOfBounds 31)"
proof -
  have l: "length (data (OS21Tx_new TX_PIN)) = DATA_LEN"
    by (simp add: OS21Tx_new_def DATA_LEN_def)
  note t = checksum_reads_in_bounds [OF l, of SUM_MASK CRC_IV]
  from t have "\<forall>i. bit SUM_MASK i \<longrightarrow> i < 24"
    by fastforce
  with t l show ?thesis
    by blast
qed


section \<open>The documented example frame\<close>

lemma fst_sendData: "data (fst (sendData tx m)) = data tx"
proof -
  obtain tx1 m1 where c: "configureTimer tx m = (tx1, m1)"
    by (cases "configureTimer tx m")
  then show ?thesis
    using configureTimer_saves [OF c] by (simp add: sendData_def)
qed

lemma transmit_data:
  "map_sum id (data \<circ> fst) (transmit t h b tx m) =
     (case setTemperature t tx of
        Inl e \<Rightarrow> Inl e
      | Inr tx1 \<Rightarrow>
         (case setHumidity h tx1 of
            Inl e \<Rightarrow> Inl e
          | Inr tx2 \<Rightarrow>
             (case setChecksum (setLowBattery b tx2) of
                Inl e \<Rightarrow> Inl e
              | Inr tx3 \<Rightarrow>
                 (case setCRC tx3 of
                    Inl e \<Rightarrow> Inl e
                  | Inr tx4 \<Rightarrow> Inr (data tx4)))))"
proof -
  have "data (fst (sendData (fst (sendData tx4 m)) m')) = data tx4" for tx4 m'
    by (simp only: fst_sendData)
  then show ?thesis
    by (simp add: transmit_def split_beta Let_def split: sum.splits)
qed

lemma begin_transmit_data:
  "(case OS21Tx_begin channel rollingId tx m of
      Inl e \<Rightarrow> Inl e
    | Inr (tx1, m1) \<Rightarrow>
       (case transmit t h b tx1 m1 of
          Inl e \<Rightarrow> Inl e
        | Inr (tx2, m2) \<Rightarrow> Inr (data tx2)))
   = (case setChannel channel (setRollingId rollingId tx) of
      Inl e \<Rightarrow> Inl e
    | Inr tx0 \<Rightarrow>
     (case setTemperature t tx0 of
        Inl e \<Rightarrow> Inl e
      | Inr tx1 \<Rightarrow>
         (case setHumidity h tx1 of
            Inl e \<Rightarrow> Inl e
          | Inr tx2 \<Rightarrow>
             (case setChecksum (setLowBattery b tx2) of
                Inl e \<Rightarrow> Inl e
              | Inr tx3 \<Rightarrow>
                 (case setCRC tx3 of
                    Inl e \<Rightarrow> Inl e
                  | Inr tx4 \<Rightarrow> Inr (data tx4))))))"
proof (cases "setChannel channel (setRollingId rollingId tx)")
  case (Inl e)
  then show ?thesis
    by (simp add: OS21Tx_begin_def Let_def)
next
  case (Inr tx0)
  have "(case transmit t h b tx0 m' of Inl e \<Rightarrow> Inl e | Inr (tx2, m2) \<Rightarrow> Inr (data tx2)) =
        map_sum id (data \<circ> fst) (transmit t h b tx0 m')" for m'
    by (cases "transmit t h b tx0 m'") auto
  then show ?thesis
    by (simp add: OS21Tx_begin_def Let_def Inr transmit_data)
qed

lemma encoded_channel_2:
  "(case setChannel 2 (setRollingId 0xbb (OS21Tx_new TX_PIN)) of
      Inl e \<Rightarrow> Inl e
    | Inr tx0 \<Rightarrow>
     (case setTemperature (f32_round (227 / 10)) tx0 of
        Inl e \<Rightarrow> Inl e
      | Inr tx1 \<Rightarrow>
         (case setHumidity 30 tx1 of
            Inl e \<Rightarrow> Inl e
          | Inr tx2 \<Rightarrow>
             (case setChecksum (setLowBattery True tx2) of
                Inl e \<Rightarrow> Inl e
              | Inr tx3 \<Rightarrow>
                 (case setCRC tx3 of
                    Inl e \<Rightarrow> Inl e
                  | Inr tx4 \<Rightarrow> Inr (data tx4))))))
   = Inr [0xff, 0xff, 0x1a, 0x2d, 0x20, 0xbb, 0x7c, 0x22, 0x00, 0x83, 0x4a, 0x55]"
  by code_simp

lemma encoded_channel_1:
  "(case setChannel 1 (setRollingId 0xbb (OS21Tx_new TX_PIN)) of
      Inl e \<Rightarrow> Inl e
    | Inr tx0 \<Rightarrow>
     (case setTemperature (f32_round (227 / 10)) tx0 of
        Inl e \<Rightarrow> Inl e
      | Inr tx1 \<Rightarrow>
         (case setHumidity 30 tx1 of
            Inl e \<Rightarrow> Inl e
          | Inr tx2 \<Rightarrow>
             (case setChecksum (setLowBattery True tx2) of
                Inl e \<Rightarrow> Inl e
              | Inr tx3 \<Rightarrow>
                 (case setCRC tx3 of
                    Inl e \<Rightarrow> Inl e
                  | Inr tx4 \<Rightarrow> Inr (data tx4))))))
   = Inr [0xff, 0xff, 0x1a, 0x2d, 0x10, 0xbb, 0x7c, 0x22, 0x00, 0x83, 0x49, 0xf3]"
  by code_simp

text \<open>
  Claim C1, as amended. With channel 2, rolling id 0xbb, temperature 22.7 (the \<open>float\<close>
  nearest to it), humidity 30.0 and a low battery, \<open>begin\<close> followed by \<open>transmit\<close>
  leaves the documented frame ff ff 1a 2d 20 bb 7c 22 00 83 4a 55 in the buffer, with
  checksum 0x4a and CRC 0x55. With channel 1 and the same other inputs the frame is
  ff ff 1a 2d 10 bb 7c 22 00 83 49 f3.
\<close>

theorem reference_frame_channel_2:
  "(case OS21Tx_begin 2 0xbb (OS21Tx_new TX_PIN) m of
      Inl e \<Rightarrow> Inl e
    | Inr (tx1, m1) \<Rightarrow>
       (case transmit (f32_round (227 / 10)) 30 True tx1 m1 of
          Inl e \<Rightarrow> Inl e
        | Inr (tx2, m2) \<Rightarrow> Inr (data tx2)))
   = Inr [0xff, 0xff, 0x1a, 0x2d, 0x20, 0xbb, 0x7c, 0x22, 0x00, 0x83, 0x4a, 0x55]
   \<and>
   (case OS21Tx_begin 1 0xbb (OS21Tx_new TX_PIN) m of
      Inl e \<Rightarrow> Inl e
    | Inr (tx1, m1) \<Rightarrow>
       (case transmit (f32_round (227 / 10)) 30 True tx1 m1 of
          Inl e \<Rightarrow> Inl e
        | Inr (tx2, m2) \<Rightarrow> Inr (data tx2)))
   = Inr [0xff, 0xff, 0x1a, 0x2d, 0x10, 0xbb, 0x7c, 0x22, 0x00, 0x83, 0x49, 0xf3]"
  unfolding begin_transmit_data encoded_channel_1 encoded_channel_2 by simp

text \<open>
  Claim C1, as stated, fails: with channel 1 the frame is not the documented one.
\<close>

theorem reference_frame_channel_1_counterexample:
  "(case OS21Tx_begin 1 0xbb (OS21Tx_new TX_PIN) mcu_reset of
      Inl e \<Rightarrow> Inl e
    | Inr (tx1, m1) \<Rightarrow>
       (case transmit (f32_round (227 / 10)) 30 True tx1 m1 of
          Inl e \<Rightarrow> Inl e
        | Inr (tx2, m2) \<Rightarrow> Inr (data tx2)))
   \<noteq> Inr [0xff, 0xff, 0x1a, 0x2d, 0x20, 0xbb, 0x7c, 0x22, 0x00, 0x83, 0x4a, 0x55]"
  unfolding begin_transmit_data encoded_channel_1 by simp

section \<open>The scheduler\<close>

lemma pin_and_eq: "pin (and_eq i v tx) = pin tx"
  by (simp add: and_eq_def)

lemma pin_or_eq: "pin (or_eq i v tx) = pin tx"
  by (simp add: or_eq_def)

lemma pin_setTemperature: "setTemperature t tx = Inr tx' \<Longrightarrow> pin tx' = pin tx"
  by (auto simp: setTemperature_def Let_def pin_and_eq pin_or_eq split: sum.splits)

lemma pin_setHumidity: "setHumidity h tx = Inr tx' \<Longrightarrow> pin tx' = pin tx"
  by (auto simp: setHumidity_def Let_def pin_and_eq pin_or_eq split: sum.splits)

lemma pin_setLowBattery: "pin (setLowBattery b tx) = pin tx"
  by (simp add: setLowBattery_def pin_and_eq pin_or_eq)

lemma pin_setChecksum: "setChecksum tx = Inr tx' \<Longrightarrow> pin tx' = pin tx"
  by (auto simp: setChecksum_def Let_def pin_and_eq pin_or_eq split: sum.splits)

lemma pin_setCRC: "setCRC tx = Inr tx' \<Longrightarrow> pin tx' = pin tx"
  by (auto simp: setCRC_def Let_def pin_and_eq pin_or_eq split: sum.splits)

lemma pin_fst_sendData: "pin (fst (sendData tx m)) = pin tx"
proof -
  obtain tx1 m1 where c: "configureTimer tx m = (tx1, m1)"
    by (cases "configureTimer tx m")
  then show ?thesis
    using configureTimer_saves [OF c] by (simp add: sendData_def)
qed

lemma length_symbols:
  "length (concat (map (\<lambda>k. if P k then [a, b, c, d] else [e, f, g, h]) xs)) = 4 * length xs"
  by (induction xs) simp_all

lemma length_pinWrites_sendData:
  "length (pinWrites (pin tx) (trace (snd (sendData tx m)))) =
     length (pinWrites (pin tx) (trace m)) + 385"
  by (simp add: pinWrites_sendData length_symbols DATA_LEN_def)

lemma pinWrites_emit_other:
  "(\<And>v. ev \<noteq> DigitalWrite p v) \<Longrightarrow> pinWrites p (trace (emit ev m)) = pinWrites p (trace m)"
  by (cases ev) (auto simp: emit_def pinWrites_append)

lemma length_pinWrites_transmit:
  assumes "transmit t h b tx m = Inr (tx', m')"
  shows "length (pinWrites (pin tx) (trace m')) = length (pinWrites (pin tx) (trace m)) + 770"
proof -
  from assms obtain tx1 tx2 tx3 tx4 where
    s: "setTemperature t tx = Inr tx1" "setHumidity h tx1 = Inr tx2"
       "setChecksum (setLowBattery b tx2) = Inr tx3" "setCRC tx3 = Inr tx4"
    and r: "(tx', m') = sendData (fst (sendData tx4 m)) (delay 55 (snd (sendData tx4 m)))"
    by (auto simp: transmit_def split_beta Let_def split: sum.splits)
  have p4: "pin tx4 = pin tx"
    using s by (simp add: pin_setTemperature pin_setHumidity pin_setChecksum pin_setCRC pin_setLowBattery)
  let ?tx5 = "fst (sendData tx4 m)" and ?m1 = "snd (sendData tx4 m)"
  have p5: "pin ?tx5 = pin tx"
    by (simp add: pin_fst_sendData p4)
  have "length (pinWrites (pin tx) (trace ?m1)) = length (pinWrites (pin tx) (trace m)) + 385"
    using length_pinWrites_sendData [of tx4 m] by (simp add: p4)
  moreover have "pinWrites (pin tx) (trace (delay 55 ?m1)) = pinWrites (pin tx) (trace ?m1)"
    unfolding delay_def by (rule pinWrites_emit_other) simp
  moreover have "length (pinWrites (pin tx) (trace m')) =
                 length (pinWrites (pin tx) (trace (delay 55 ?m1))) + 385"
    using length_pinWrites_sendData [of ?tx5 "delay 55 ?m1"] r [symmetric] by (simp add: p5)
  ultimately show ?thesis
    by simp
qed


lemma pinWrites_loop_wake: "pinWrites TX_PIN (trace (loop_wake m)) = pinWrites TX_PIN (trace m)"
  by (simp add: loop_wake_def Let_def digitalWrite_def powerOn_def dht_def sleep_enable_def
      set_sleep_mode_def sleep_disable_def sleep_cpu_def emit_def pinWrites_append
      T0_XO_POWER_PIN_def DHT_POWER_PIN_def TX_PIN_def)

lemma pinWrites_powerOff: "pinWrites TX_PIN (trace (powerOff dht m)) = pinWrites TX_PIN (trace m)"
  by (simp add: powerOff_def Let_def digitalWrite_def pinMode_def dht_def emit_def pinWrites_append
      DHT_DATA_PIN_def DHT_POWER_PIN_def TX_PIN_def)

lemma pinWrites_getVcc:
  "getVcc adcl adch m = Inr (vcc, m') \<Longrightarrow> pinWrites TX_PIN (trace m') = pinWrites TX_PIN (trace m)"
  by (auto simp: getVcc_def Let_def delay_def emit_def pinWrites_append split: if_splits)

lemma loop_irrational:
  "irrationalReading t h \<Longrightarrow> loop t h adcl adch tx m = Inr (tx, loop_wake m)"
  by (simp add: loop_def loop_wake_def Let_def)

lemma loop_rational:
  assumes "\<not> irrationalReading t h" and "loop t h adcl adch tx m = Inr (tx', m')"
  shows "\<exists>vcc m7 m8. getVcc adcl adch (powerOff dht (loop_wake m)) = Inr (vcc, m7) \<and>
           transmit t h (vcc < LOW_BATTERY) tx m7 = Inr (tx', m8) \<and>
           pinWrites TX_PIN (trace m') = pinWrites TX_PIN (trace m8)"
proof -
  from assms obtain vcc m7 where g: "getVcc adcl adch (powerOff dht (loop_wake m)) = Inr (vcc, m7)"
    by (cases "getVcc adcl adch (powerOff dht (loop_wake m))")
       (auto simp: loop_def loop_wake_def Let_def)
  with assms obtain tx1 m8 where t: "transmit t h (vcc < LOW_BATTERY) tx m7 = Inr (tx1, m8)"
    by (cases "transmit t h (vcc < LOW_BATTERY) tx m7")
       (auto simp: loop_def loop_wake_def Let_def)
  from assms g t have "tx' = tx1" and
    "pinWrites TX_PIN (trace m') = pinWrites TX_PIN (trace m8)"
    by (auto simp: loop_def loop_wake_def Let_def digitalWrite_def sleep_enable_def
        set_sleep_mode_def sleep_disable_def sleep_cpu_def emit_def pinWrites_append
        T0_XO_POWER_PIN_def TX_PIN_def)
  with g t show ?thesis
    by blast
qed

text \<open>
  Claim C7. The transmitter of the sketch is on pin \<open>TX_PIN\<close>. When \<open>irrationalReading\<close>
  holds of the reading, the pass of \<open>loop\<close> returns with the transmitter object, and so
  the frame, unchanged and without a write to the transmitter pin: \<open>transmit\<close> is not
  called. When it does not hold and the pass returns, the object is the one a call of
  \<open>transmit\<close> with this reading returned, and the pin has received the 770 writes of the
  two emissions of the frame.
\<close>

theorem loop_discards_irrational_reading:
  assumes "pin tx = TX_PIN"
  shows "(irrationalReading t h \<longrightarrow>
            (\<exists>m'. loop t h adcl adch tx m = Inr (tx, m') \<and>
                  pinWrites TX_PIN (trace m') = pinWrites TX_PIN (trace m)))
       \<and> (\<not> irrationalReading t h \<longrightarrow>
            (\<forall>tx' m'. loop t h adcl adch tx m = Inr (tx', m') \<longrightarrow>
               (\<exists>lowBattery m1 m2. transmit t h lowBattery tx m1 = Inr (tx', m2)) \<and>
               length (pinWrites TX_PIN (trace m')) = length (pinWrites TX_PIN (trace m)) + 770))"
proof (intro conjI impI allI)
  assume "irrationalReading t h"
  then show "\<exists>m'. loop t h adcl adch tx m = Inr (tx, m') \<and>
                  pinWrites TX_PIN (trace m') = pinWrites TX_PIN (trace m)"
    by (simp add: loop_irrational pinWrites_loop_wake)
next
  fix tx' m'
  assume r: "\<not> irrationalReading t h" and l: "loop t h adcl adch tx m = Inr (tx', m')"
  from loop_rational [OF r l] obtain vcc m7 m8 where
    g: "getVcc adcl adch (powerOff dht (loop_wake m)) = Inr (vcc, m7)" and
    t: "transmit t h (vcc < LOW_BATTERY) tx m7 = Inr (tx', m8)" and
    p: "pinWrites TX_PIN (trace m') = pinWrites TX_PIN (trace m8)"
    by blast
  from t show "\<exists>lowBattery m1 m2. transmit t h lowBattery tx m1 = Inr (tx', m2)"
    by blast
  have "pinWrites TX_PIN (trace m7) = pinWrites TX_PIN (trace m)"
    using pinWrites_getVcc [OF g] by (simp add: pinWrites_powerOff pinWrites_loop_wake)
  then show "length (pinWrites TX_PIN (trace m')) = length (pinWrites TX_PIN (trace m)) + 770"
    using length_pinWrites_transmit [OF t] assms p by simp
qed


lemma loop_returns:
  assumes "\<not> irrationalReading t h"
    and "getVcc adcl adch (powerOff dht (loop_wake m)) = Inr (vcc, m7)"
    and "transmit t h (vcc < LOW_BATTERY) tx m7 = Inr (tx1, m8)"
  shows "\<exists>m'. loop t h adcl adch tx m = Inr (tx1, m')"
  using assms by (simp add: loop_def loop_wake_def Let_def)

lemma pin_setChannel: "setChannel c tx = Inr tx' \<Longrightarrow> pin tx' = pin tx"
  by (auto simp: setChannel_def Let_def pin_and_eq pin_or_eq split: if_splits)

lemma pin_setRollingId: "pin (setRollingId r tx) = pin tx"
  by (simp add: setRollingId_def pin_and_eq pin_or_eq)

lemma getVcc_example:
  "\<exists>m7. getVcc 0 3 m = Inr (1465, m7)"
  by (simp add: getVcc_def Let_def)

theorem loop_discards_irrational_reading_witness:
  "(\<exists>m'. loop 0 0 0 3 (OS21Tx_new TX_PIN) mcu_reset = Inr (OS21Tx_new TX_PIN, m') \<and>
         pinWrites TX_PIN (trace m') = [])
   \<and> (\<exists>tx0 tx' m'. setChannel 2 (setRollingId 0xbb (OS21Tx_new TX_PIN)) = Inr tx0 \<and>
         loop (f32_round (227 / 10)) 30 0 3 tx0 mcu_reset = Inr (tx', m') \<and>
         length (pinWrites TX_PIN (trace m')) = 770)"
proof
  have p: "pin (OS21Tx_new TX_PIN) = TX_PIN"
    by (simp add: OS21Tx_new_def)
  have i: "irrationalReading 0 0"
    by (simp add: irrationalReading_def)
  show "\<exists>m'. loop 0 0 0 3 (OS21Tx_new TX_PIN) mcu_reset = Inr (OS21Tx_new TX_PIN, m') \<and>
         pinWrites TX_PIN (trace m') = []"
    using loop_discards_irrational_reading [OF p, of 0 0 0 3 mcu_reset] i
    by (simp add: mcu_reset_def)
next
  let ?t = "f32_round (227 / 10)"
  obtain tx0 where c: "setChannel 2 (setRollingId 0xbb (OS21Tx_new TX_PIN)) = Inr tx0"
    using encoded_channel_2
    by (cases "setChannel 2 (setRollingId 0xbb (OS21Tx_new TX_PIN))") auto
  have p: "pin tx0 = TX_PIN"
    using pin_setChannel [OF c] by (simp add: pin_setRollingId OS21Tx_new_def)
  have r: "\<not> irrationalReading ?t 30"
    by (simp add: irrationalReading_def)
  obtain m7 where g: "getVcc 0 3 (powerOff dht (loop_wake mcu_reset)) = Inr (1465, m7)"
    using getVcc_example by blast
  have "map_sum id (data \<circ> fst) (transmit ?t 30 True tx0 m7) =
        Inr [0xff, 0xff, 0x1a, 0x2d, 0x20, 0xbb, 0x7c, 0x22, 0x00, 0x83, 0x4a, 0x55]"
    unfolding transmit_data using encoded_channel_2 by (simp add: c)
  then obtain tx' m8 where t: "transmit ?t 30 ((1465 :: int) < LOW_BATTERY) tx0 m7 = Inr (tx', m8)"
    by (cases "transmit ?t 30 True tx0 m7") (auto simp: LOW_BATTERY_def)
  obtain m' where l: "loop ?t 30 0 3 tx0 mcu_reset = Inr (tx', m')"
    using loop_returns [OF r g t] by blast
  have "length (pinWrites TX_PIN (trace m')) = length (pinWrites TX_PIN (trace mcu_reset)) + 770"
    using loop_discards_irrational_reading [OF p, of ?t 30 0 3 mcu_reset] r l by blast
  then have "length (pinWrites TX_PIN (trace m')) = 770"
    by (simp add: mcu_reset_def)
  with c l show "\<exists>tx0 tx' m'. setChannel 2 (setRollingId 0xbb (OS21Tx_new TX_PIN)) = Inr tx0 \<and>
         loop ?t 30 0 3 tx0 mcu_reset = Inr (tx', m') \<and>
         length (pinWrites TX_PIN (trace m')) = 770"
    by blast
qed

section \<open>Rounding to binary32\<close>

lemma round_half_even_near:
  assumes "\<bar>q - of_int n\<bar> < 1 / 2"
  shows "round_half_even q = n"
proof -
  have "\<lfloor>q\<rfloor> = n \<or> \<lfloor>q\<rfloor> = n - 1"
    using assms by (auto simp: floor_eq_iff abs_less_iff)
  then show ?thesis
    using assms by (auto simp: round_half_even_def Let_def abs_less_iff)
qed

lemma round_half_even_tie:
  assumes "\<bar>q - of_int n\<bar> = 1 / 2" and "even n"
  shows "round_half_even q = n"
proof -
  consider "q = of_int n + 1 / 2" | "q = of_int n - 1 / 2"
    using assms(1) by (auto simp: abs_if split: if_splits) 
  then show ?thesis
  proof cases
    case 1
    then have "\<lfloor>q\<rfloor> = n"
      by (simp add: floor_eq_iff)
    with 1 assms(2) show ?thesis
      by (simp add: round_half_even_def Let_def)
  next
    case 2
    then have f: "\<lfloor>q\<rfloor> = n - 1"
      by (simp add: floor_eq_iff)
    with assms(2) have "odd \<lfloor>q\<rfloor>"
      by simp
    with 2 f show ?thesis
      by (simp add: round_half_even_def Let_def)
  qed
qed

lemma round_half_even_eqI:
  assumes "\<bar>q - of_int n\<bar> \<le> 1 / 2" and "even n"
  shows "round_half_even q = n"
  using assms round_half_even_near [of q n] round_half_even_tie [of q n] by linarith

lemma round_half_even_of_int: "round_half_even (of_int n) = n"
  by (rule round_half_even_near) simp

lemma round_half_even_error: "\<bar>of_int (round_half_even q) - q\<bar> \<le> 1 / 2"
proof -
  have "of_int \<lfloor>q\<rfloor> \<le> q" "q < of_int \<lfloor>q\<rfloor> + 1"
    by linarith+
  then show ?thesis
    by (auto simp: round_half_even_def Let_def abs_le_iff)
qed

lemma round_half_even_minus: "round_half_even (- q) = - round_half_even q"
proof (cases "\<bar>of_int (round_half_even q) - q\<bar> < 1 / 2")
  case True
  then have "\<bar>- q - of_int (- round_half_even q)\<bar> < 1 / 2"
    by simp
  then show ?thesis
    by (rule round_half_even_near)
next
  case False
  then have t: "\<bar>of_int (round_half_even q) - q\<bar> = 1 / 2"
    using round_half_even_error [of q] by linarith
  have "even (round_half_even q)"
  proof -
    let ?f = "\<lfloor>q\<rfloor>"
    have b: "of_int ?f \<le> q" "q < of_int ?f + 1" by linarith+
    show ?thesis
    proof (cases "q - of_int ?f < 1 / 2")
      case True
      then have "round_half_even q = ?f" by (simp add: round_half_even_def Let_def)
      with t True b have False by linarith
      then show ?thesis ..
    next
      case nl: False
      show ?thesis
      proof (cases "1 / 2 < q - of_int ?f")
        case True
        then have "round_half_even q = ?f + 1" using nl by (simp add: round_half_even_def Let_def)
        with t True b have False by simp
        then show ?thesis ..
      next
        case False
        then show ?thesis using nl by (simp add: round_half_even_def Let_def)
      qed
    qed
  qed
  then have "even (- round_half_even q)"
    by simp
  moreover have "\<bar>- q - of_int (- round_half_even q)\<bar> = 1 / 2"
    using t by (simp add: abs_minus_commute)
  ultimately show ?thesis
    by (rule round_half_even_tie [rotated])
qed

lemma powi2_pos: "0 < (2 :: rat) powi e"
  by (simp add: zero_less_power_int)

lemma powi2_less_iff: "((2 :: rat) powi a < 2 powi b) = (a < b)"
proof
  assume l: "(2 :: rat) powi a < 2 powi b"
  show "a < b"
  proof (rule ccontr)
    assume "\<not> a < b"
    then have "b \<le> a" by simp
    then have "(2 :: rat) powi b \<le> 2 powi a"
      by (rule power_int_increasing) simp
    with l show False by simp
  qed
next
  assume "a < b"
  then show "(2 :: rat) powi a < 2 powi b"
    by (rule power_int_strict_increasing) simp
qed

lemma powi2_le_iff: "((2 :: rat) powi a \<le> 2 powi b) = (a \<le> b)"
  using powi2_less_iff [of b a] by (auto simp: not_less [symmetric])

lemma powi2_add: "(2 :: rat) powi (a + b) = 2 powi a * 2 powi b"
  by (rule power_int_add) simp

lemma powi2_diff: "(2 :: rat) powi (a - b) = 2 powi a / 2 powi b"
  by (rule power_int_diff) simp

lemma bitlen_powi:
  assumes "0 < a"
  shows "(2 :: rat) powi (bitlen a - 1) \<le> of_int a" and "of_int a < (2 :: rat) powi bitlen a"
proof -
  have l: "1 \<le> bitlen a"
    using assms bitlen_nonneg [of a] bitlen_eq_zero_iff [of a] by linarith
  from bitlen_bounds [OF assms]
  have b: "2 ^ nat (bitlen a - 1) \<le> a" "a < 2 ^ nat (bitlen a)"
    by simp_all
  have "(2 :: rat) powi (bitlen a - 1) = of_int (2 ^ nat (bitlen a - 1))"
    using l by (simp add: power_int_nonneg_exp)
  also have "\<dots> \<le> of_int a"
    using b(1) by (simp only: of_int_le_iff)
  finally show "(2 :: rat) powi (bitlen a - 1) \<le> of_int a" .
  have "(of_int a :: rat) < of_int (2 ^ nat (bitlen a))"
    using b(2) by (simp only: of_int_less_iff)
  also have "\<dots> = 2 powi bitlen a"
    using l by (simp add: power_int_nonneg_exp)
  finally show "of_int a < (2 :: rat) powi bitlen a" .
qed

lemma ilog2_bounds:
  assumes "0 < x"
  shows "2 powi (ilog2 x) \<le> x \<and> x < 2 powi (ilog2 x + 1)"
proof -
  obtain a b where q: "quotient_of x = (a, b)"
    by (cases "quotient_of x")
  have b: "0 < b"
    by (rule quotient_of_denom_pos [OF q])
  have x: "x = of_int a / of_int b"
    by (rule quotient_of_div [OF q])
  have a: "0 < a"
    using assms b unfolding x by (simp add: zero_less_divide_iff)
  define d where "d = bitlen a - bitlen b"
  note A = bitlen_powi [OF a] and B = bitlen_powi [OF b]
  have B0: "(0 :: rat) < of_int b" using b by simp
  have up: "x < 2 powi (d + 1)"
  proof -
    have "x < 2 powi bitlen a / 2 powi (bitlen b - 1)"
      unfolding x using a A(2) B(1) powi2_pos [of "bitlen b - 1"]
      by (intro frac_less) simp_all
    also have "\<dots> = 2 powi (bitlen a - (bitlen b - 1))"
      by (rule powi2_diff [symmetric])
    finally show ?thesis by (simp add: d_def algebra_simps)
  qed
  have lo: "2 powi (d - 1) < x"
  proof -
    have "(2 :: rat) powi (bitlen a - 1 - bitlen b) = 2 powi (bitlen a - 1) / 2 powi bitlen b"
      by (rule powi2_diff)
    also have "\<dots> < x"
      unfolding x using A(1) B(2) B0 powi2_pos [of "bitlen a - 1"]
      by (intro frac_less2) simp_all
    finally show ?thesis by (simp add: d_def algebra_simps)
  qed
  show ?thesis
  proof (cases "2 powi d \<le> x")
    case True
    then have "ilog2 x = d"
      by (simp add: ilog2_def q d_def)
    with True up show ?thesis by simp
  next
    case False
    then have "ilog2 x = d - 1"
      by (simp add: ilog2_def q d_def)
    with False lo show ?thesis by simp
  qed
qed

lemma ilog2_eqI:
  assumes "2 powi e \<le> x" and "x < 2 powi (e + 1)"
  shows "ilog2 x = e"
proof -
  have x: "0 < x"
    using assms(1) powi2_pos [of e] by linarith
  note b = ilog2_bounds [OF x]
  have "(2 :: rat) powi e < 2 powi (ilog2 x + 1)"
    using assms(1) b by linarith
  then have 1: "e < ilog2 x + 1"
    by (simp only: powi2_less_iff)
  have "(2 :: rat) powi (ilog2 x) < 2 powi (e + 1)"
    using assms(2) b by linarith
  then have 2: "ilog2 x < e + 1"
    by (simp only: powi2_less_iff)
  from 1 2 show ?thesis by simp
qed

lemma ilog2_ge:
  assumes "2 powi e \<le> x"
  shows "e \<le> ilog2 x"
proof -
  have x: "0 < x"
    using assms(1) powi2_pos [of e] by linarith
  have "(2 :: rat) powi e < 2 powi (ilog2 x + 1)"
    using assms ilog2_bounds [OF x] by linarith
  then have "e < ilog2 x + 1"
    by (simp only: powi2_less_iff)
  then show ?thesis by simp
qed

lemma ilog2_less:
  assumes "0 < x" and "x < 2 powi e"
  shows "ilog2 x < e"
proof -
  have "(2 :: rat) powi (ilog2 x) < 2 powi e"
    using assms ilog2_bounds [OF assms(1)] by linarith
  then show ?thesis
    by (simp only: powi2_less_iff)
qed

lemma powi2_inverse: "1 / (2 :: rat) powi a = 2 powi (- a)"
  by (simp add: power_int_minus divide_inverse)

lemma powi2_nat: "0 \<le> a \<Longrightarrow> (2 :: rat) powi a = of_int (2 ^ nat a)"
  by (simp add: power_int_nonneg_exp)

lemma f32_round_pos:
  assumes "0 < x" and "- 126 \<le> ilog2 x"
  shows "f32_round x = of_int (round_half_even (x / 2 powi (ilog2 x - 23))) * 2 powi (ilog2 x - 23)"
  using assms by (simp add: f32_round_def Let_def max_def)

lemma f32_round_eqI:
  assumes x: "0 < x" and e: "- 126 \<le> ilog2 x"
    and y: "y = of_int k * 2 powi (ilog2 x - 23)" and k: "even k"
    and d: "\<bar>x - y\<bar> \<le> 2 powi (ilog2 x - 23) / 2"
  shows "f32_round x = y"
proof -
  let ?u = "(2 :: rat) powi (ilog2 x - 23)"
  have u: "0 < ?u" by (rule powi2_pos)
  have "x / ?u - of_int k = (x - y) / ?u"
    using u by (simp add: y field_simps)
  then have "\<bar>x / ?u - of_int k\<bar> = \<bar>x - y\<bar> / ?u"
    using u by (simp add: abs_divide)
  also have "\<dots> \<le> (?u / 2) / ?u"
    using d u by (intro divide_right_mono) simp_all
  also have "\<dots> = 1 / 2"
    using u by simp
  finally have "round_half_even (x / ?u) = k"
    using k by (intro round_half_even_eqI)
  then show ?thesis
    by (simp add: f32_round_pos [OF x e] y)
qed

lemma f32_round_minus: "f32_round (- x) = - f32_round x"
  by (simp add: f32_round_def Let_def round_half_even_minus)

text \<open>
  Scaling the \<open>float\<close> nearest to a decimal with one fractional digit by ten gives the
  integer back: the error of the first rounding, times ten, is at most half a unit in the
  last place of the product, and a tie goes to the even significand, which is the integer.
\<close>

lemma f32_tenths:
  assumes N: "1 \<le> N" "N \<le> 999"
  shows "f32_round (f32_round (of_int N / 10) * 10) = of_int N"
    and "0 < f32_round (of_int N / 10)"
proof -
  define x :: rat where "x = of_int N / 10"
  define e where "e = ilog2 x"
  define u :: rat where "u = 2 powi (e - 23)"
  define m where "m = round_half_even (x / u)"
  define K :: int where "K = N * 2 ^ nat (23 - e)"
  have x0: "0 < x" using N by (simp add: x_def)
  have u0: "0 < u" unfolding u_def by (rule powi2_pos)
  have "(2 :: rat) powi (- 4) \<le> x"
    using N by (simp add: x_def power_int_minus)
  then have e_lo: "- 4 \<le> e"
    unfolding e_def by (rule ilog2_ge)
  have "x < 2 powi 7"
    using N by (simp add: x_def)
  then have "e < 7"
    unfolding e_def by (rule ilog2_less [OF x0])
  then have e_hi: "e \<le> 6" by simp
  have t: "f32_round x = of_int m * u"
    unfolding m_def u_def e_def using e_lo by (intro f32_round_pos [OF x0]) (simp add: e_def)
  have xb: "2 powi e \<le> x" "x < 2 powi (e + 1)"
    using ilog2_bounds [OF x0] by (simp_all add: e_def)
  have iu: "a / u = a * of_int (2 ^ nat (23 - e))" for a :: rat
  proof -
    have "1 / u = of_int (2 ^ nat (23 - e))"
      unfolding u_def using e_hi by (simp add: powi2_inverse powi2_nat)
    then have "a * (1 / u) = a * of_int (2 ^ nat (23 - e))"
      by (rule arg_cong)
    then show ?thesis by simp
  qed
  have xu: "x / u = of_int K / 10"
    by (simp add: x_def K_def iu)
  have "2 powi e / u = 2 powi 23"
    unfolding u_def by (simp flip: powi2_diff)
  then have q_lo: "2 ^ 23 \<le> x / u"
    using xb(1) u0 divide_right_mono [of "2 powi e" x u] by simp
  have "2 powi (e + 1) / u = 2 powi 24"
    unfolding u_def by (simp flip: powi2_diff)
  then have q_hi: "x / u < 2 ^ 24"
    using xb(2) u0 divide_strict_right_mono [of x "2 powi (e + 1)" u] by simp
  have err: "\<bar>of_int m - x / u\<bar> \<le> 1 / 2"
    unfolding m_def by (rule round_half_even_error)
  have m_lo: "2 ^ 23 \<le> m"
  proof -
    have "(2 :: rat) ^ 23 - 1 < of_int m" using err q_lo by linarith
    then have "(of_int (2 ^ 23 - 1) :: rat) < of_int m" by simp
    then have "2 ^ 23 - 1 < m" by (simp only: of_int_less_iff)
    then show ?thesis by simp
  qed
  have m_hi: "m \<le> 2 ^ 24"
  proof -
    have "of_int m < (2 :: rat) ^ 24 + 1" using err q_hi by linarith
    then have "(of_int m :: rat) < of_int (2 ^ 24 + 1)" by simp
    then have "m < 2 ^ 24 + 1" by (simp only: of_int_less_iff)
    then show ?thesis by simp
  qed
  show "0 < f32_round (of_int N / 10)"
    using t m_lo u0 by (simp add: x_def [symmetric] zero_less_mult_iff)
  define \<delta> where "\<delta> = 10 * m - K"
  have e1: "of_int m - of_int K / 10 \<le> (1 / 2 :: rat)"
    and e2: "of_int K / 10 - of_int m \<le> (1 / 2 :: rat)"
    using err unfolding xu by linarith+
  have "(of_int \<delta> :: rat) \<le> of_int 5"
    using e1 by (simp add: \<delta>_def)
  then have d5a: "\<delta> \<le> 5"
    by (simp only: of_int_le_iff)
  have "(of_int (- 5) :: rat) \<le> of_int \<delta>"
    using e2 by (simp add: \<delta>_def)
  then have d5b: "- 5 \<le> \<delta>"
    by (simp only: of_int_le_iff)
  have "even K"
    unfolding K_def using e_hi by simp
  then have "even \<delta>"
    by (simp add: \<delta>_def)
  with d5a d5b have d4: "\<bar>\<delta>\<bar> \<le> 4"
    by presburger
  define y :: rat where "y = f32_round x * 10"
  have y: "y = of_int N + of_int \<delta> * u"
  proof -
    have "of_int N / u = of_int K"
      by (simp add: K_def iu)
    then have "(of_int N :: rat) = of_int K * u"
      using u0 by (simp add: field_simps)
    then show ?thesis
      by (simp add: y_def t \<delta>_def algebra_simps)
  qed
  have y_lo: "2 powi (e + 3) \<le> y"
  proof -
    have "(2 :: rat) powi (e + 3) = 2 ^ 23 * u * 8"
      unfolding u_def by (simp add: power_int_add power_int_diff)
    also have "\<dots> \<le> of_int m * u * 10"
    proof -
      have "(of_int (2 ^ 23) :: rat) \<le> of_int m" using m_lo by (simp only: of_int_le_iff)
      then have "(2 :: rat) ^ 23 \<le> of_int m" by simp
      then have "(2 :: rat) ^ 23 * u \<le> of_int m * u" using u0 by simp
      moreover have "0 \<le> of_int m * u" using m_lo u0 by simp
      ultimately show ?thesis by linarith
    qed
    finally show ?thesis by (simp add: y_def t)
  qed
  have y_hi: "y < 2 powi (e + 5)"
  proof -
    have "(of_int m :: rat) \<le> of_int (2 ^ 24)" using m_hi by (simp only: of_int_le_iff)
    then have "(of_int m :: rat) \<le> 2 ^ 24" by simp
    then have "of_int m * u \<le> 2 ^ 24 * u" using u0 by simp
    moreover have "0 < (2 :: rat) ^ 24 * u" using u0 by simp
    ultimately have "of_int m * u * 10 < 2 ^ 24 * u * 16" by linarith
    also have "\<dots> = 2 powi (e + 5)"
      unfolding u_def by (simp add: power_int_add power_int_diff)
    finally show ?thesis by (simp add: y_def t)
  qed
  have y0: "0 < y"
    using y_lo powi2_pos [of "e + 3"] by linarith
  define e' where "e' = ilog2 y"
  have e'_lo: "e + 3 \<le> e'"
    unfolding e'_def using y_lo by (rule ilog2_ge)
  have "e' < e + 5"
    unfolding e'_def using y0 y_hi by (rule ilog2_less)
  then have e'_hi: "e' \<le> 10"
    using e_hi by simp
  define k' :: int where "k' = N * 2 ^ nat (23 - e')"
  have "1 / 2 powi (e' - 23) = (of_int (2 ^ nat (23 - e')) :: rat)"
    using e'_hi by (simp add: powi2_inverse powi2_nat)
  then have "of_int N * (1 / 2 powi (e' - 23)) = (of_int N * of_int (2 ^ nat (23 - e')) :: rat)"
    by (rule arg_cong)
  then have "of_int N / 2 powi (e' - 23) = (of_int k' :: rat)"
    by (simp add: k'_def)
  then have Nk: "(of_int N :: rat) = of_int k' * 2 powi (e' - 23)"
    using powi2_pos [of "e' - 23"] by (simp add: field_simps)
  have ek: "even k'"
    unfolding k'_def using e'_hi by simp
  have "\<bar>y - of_int N\<bar> = \<bar>of_int \<delta>\<bar> * u"
    using u0 by (simp add: y abs_mult)
  also have "\<dots> \<le> 4 * u"
  proof -
    have "\<bar>of_int \<delta> :: rat\<bar> \<le> of_int 4"
      using d4 by (simp only: of_int_abs [symmetric] of_int_le_iff)
    then show ?thesis using u0 by simp
  qed
  also have "\<dots> = 2 powi (e + 3 - 23) / 2"
    unfolding u_def by (simp add: power_int_add power_int_diff)
  also have "\<dots> \<le> 2 powi (e' - 23) / 2"
    using e'_lo by (simp add: powi2_le_iff)
  finally have near: "\<bar>y - of_int N\<bar> \<le> 2 powi (ilog2 y - 23) / 2"
    by (simp add: e'_def)
  have "f32_round y = of_int N"
  proof (rule f32_round_eqI [OF y0 _ _ ek near])
    show "- 126 \<le> ilog2 y" using e'_lo e_lo by (simp add: e'_def)
    show "(of_int N :: rat) = of_int k' * 2 powi (ilog2 y - 23)" using Nk by (simp add: e'_def)
  qed
  then show "f32_round (f32_round (of_int N / 10) * 10) = of_int N"
    by (simp add: y_def x_def)
qed

lemma f32_round_exact:
  assumes m: "0 < m" "m < 2 ^ 24" and x: "x = of_int m * 2 powi j" and e: "- 126 \<le> ilog2 x"
  shows "f32_round x = x"
proof -
  define e where "e = ilog2 x"
  have x0: "0 < x"
    using m(1) powi2_pos [of j] by (simp add: x zero_less_mult_iff)
  have "(of_int m :: rat) < of_int (2 ^ 24)"
    using m(2) by (simp only: of_int_less_iff)
  then have "x < 2 ^ 24 * 2 powi j"
    using powi2_pos [of j] by (simp add: x)
  also have "\<dots> = 2 powi (24 + j)"
    by (simp add: power_int_add)
  finally have "2 powi e < (2 :: rat) powi (24 + j)"
    using ilog2_bounds [OF x0] by (simp add: e_def)
  then have "e < 24 + j"
    by (simp only: powi2_less_iff)
  then have j: "0 \<le> j - (e - 23)"
    by simp
  have "x / 2 powi (e - 23) = of_int m * 2 powi (j - (e - 23))"
    by (simp add: x powi2_diff)
  also have "\<dots> = of_int (m * 2 ^ nat (j - (e - 23)))"
    using j by (simp add: powi2_nat)
  finally have "round_half_even (x / 2 powi (e - 23)) = m * 2 ^ nat (j - (e - 23))"
    by (simp only: round_half_even_of_int)
  then have "f32_round x = of_int (m * 2 ^ nat (j - (e - 23))) * 2 powi (e - 23)"
    using f32_round_pos [OF x0 e] by (simp add: e_def)
  also have "\<dots> = of_int m * (2 powi (j - (e - 23)) * 2 powi (e - 23))"
    using j by (simp add: powi2_nat)
  also have "\<dots> = x"
    by (simp add: x flip: powi2_add)
  finally show ?thesis .
qed

lemma f32_humidity:
  assumes "0 \<le> H" "H \<le> 99"
  shows "f32_mul (f32_add (of_int H) (1 / 2)) 10 = of_int (10 * H + 5)"
proof -
  have a: "f32_round (of_int H + 1 / 2) = of_int H + 1 / 2"
  proof (rule f32_round_exact [where m = "2 * H + 1" and j = "- 1"])
    show "0 < 2 * H + 1" "2 * H + 1 < 2 ^ 24" using assms by simp_all
    show "of_int H + 1 / 2 = (of_int (2 * H + 1) :: rat) * 2 powi (- 1)"
      by (simp add: power_int_minus field_simps)
    have "(2 :: rat) powi (- 1) \<le> of_int H + 1 / 2"
      using assms by (simp add: power_int_minus)
    then have "- 1 \<le> ilog2 (of_int H + 1 / 2)"
      by (rule ilog2_ge)
    then show "- 126 \<le> ilog2 (of_int H + 1 / 2)" by simp
  qed
  have b: "f32_round (of_int (10 * H + 5)) = of_int (10 * H + 5)"
  proof (rule f32_round_exact [where m = "10 * H + 5" and j = 0])
    show "0 < 10 * H + 5" "10 * H + 5 < 2 ^ 24" using assms by simp_all
    show "(of_int (10 * H + 5) :: rat) = of_int (10 * H + 5) * 2 powi 0" by simp
    have "(2 :: rat) powi 0 \<le> of_int (10 * H + 5)"
      using assms by simp
    then have "0 \<le> ilog2 (of_int (10 * H + 5))"
      by (rule ilog2_ge)
    then show "- 126 \<le> ilog2 (of_int (10 * H + 5))" by simp
  qed
  have "(of_int H + 1 / 2) * 10 = (of_int (10 * H + 5) :: rat)"
    by simp
  then show ?thesis
    by (simp only: f32_mul_def f32_add_def a b)
qed

lemma c_int_of_int: "0 \<le> n \<Longrightarrow> n \<le> 32767 \<Longrightarrow> c_int (of_int n) = Inr n"
  by (simp add: c_int_def Let_def)

lemma c_div_nonneg: "0 \<le> a \<Longrightarrow> 0 < b \<Longrightarrow> c_div a b = a div b"
  by (cases "a = 0") (simp_all add: c_div_def)

lemma c_mod_nonneg: "0 \<le> a \<Longrightarrow> 0 < b \<Longrightarrow> c_mod a b = a mod b"
  by (simp add: c_mod_def c_div_nonneg minus_mult_div_eq_mod)

section \<open>Encoding and decoding the digits\<close>

lemma m0f_8: "(0x0f :: uint8_t) = mask 4" by (simp add: mask_eq_exp_minus_1)
lemma m0f_16: "(0x0f :: uint16_t) = mask 4" by (simp add: mask_eq_exp_minus_1)
lemma mf0_16: "(0xf0 :: uint16_t) = push_bit 4 (mask 4)" by (simp add: mask_eq_exp_minus_1)
lemma m03_16: "(0x03 :: uint16_t) = mask 2" by (simp add: mask_eq_exp_minus_1)
lemma m0c_16: "(0x0c :: uint16_t) = push_bit 2 (mask 2)" by (simp add: mask_eq_exp_minus_1)
lemma mfc_16: "(0xfc :: uint16_t) = push_bit 2 (mask 6)" by (simp add: mask_eq_exp_minus_1)
lemma mf3_16: "(0xf3 :: uint16_t) = mask 2 OR push_bit 4 (mask 4)" by (simp add: mask_eq_exp_minus_1)

lemma high_nibble_packed:
  "drop_bit 4 (byte_or (byte_and b 0x0f) (push_bit 4 (ucast x) AND 0xf0)) = x AND mask 4"
  unfolding byte_and_def byte_or_def m0f_16 mf0_16
  by (rule bit_word_eqI) (auto simp: bit_simps)

lemma low_nibble_packed:
  "byte_or (byte_and b 0xf0) (push_bit 0 (ucast x) AND 0x0f) AND mask 4 = x AND mask 4"
  unfolding byte_and_def byte_or_def m0f_16 mf0_16
  by (rule bit_word_eqI) (auto simp: bit_simps)

lemma low_nibble_kept:
  "byte_or (byte_and b 0x0f) (push_bit 4 (ucast x) AND 0xf0) AND mask 4 = b AND mask 4"
  unfolding byte_and_def byte_or_def m0f_16 mf0_16
  by (rule bit_word_eqI) (auto simp: bit_simps)

lemma sign_bit_packed:
  "bit (byte_or (byte_and (byte_or (byte_and (byte_or (byte_and b 0xfc) (push_bit 0 (ucast h) AND 0x03))
                                            0xf3) (push_bit 3 (ucast s) AND 0x0c))
                          0x0f) (push_bit 4 (ucast x) AND 0xf0)) 3
   = bit s 0"
  unfolding byte_and_def byte_or_def m0f_16 mf0_16 m03_16 m0c_16 mfc_16 mf3_16
  by (auto simp: bit_simps)

lemma and_eq_byte: "and_eq i v tx = tx\<lparr>data := (data tx)[i := byte_and (data tx ! i) v]\<rparr>"
  by (simp add: and_eq_def byte_and_def)

lemma or_eq_byte: "or_eq i v tx = tx\<lparr>data := (data tx)[i := byte_or (data tx ! i) v]\<rparr>"
  by (simp add: or_eq_def byte_or_def)

lemma unat_digit:
  assumes "0 \<le> k" "k < 16"
  shows "unat ((word_of_int k :: uint8_t) AND mask 4) = nat k"
proof -
  have "unat (word_of_int k :: uint8_t) = nat k"
    using assms by (simp add: unat_eq_nat_uint uint_word_of_int take_bit_int_eq_self)
  then show ?thesis
    using assms by (simp add: unat_and_mask)
qed

lemma setTemperature_scaled:
  assumes "- 199 \<le> N" "N \<le> 999"
  defines "t \<equiv> f32_round (of_int N / 10)"
  shows "(t < 0) = (N < 0)"
    and "c_int (f32_mul t (if (if t < 0 then 1 else 0 :: uint8_t) \<noteq> 0 then - 10 else 10)) = Inr \<bar>N\<bar>"
proof -
  consider "1 \<le> N" | "N = 0" | "N \<le> - 1" by linarith
  then have "(t < 0) = (N < 0) \<and>
    c_int (f32_mul t (if (if t < 0 then 1 else 0 :: uint8_t) \<noteq> 0 then - 10 else 10)) = Inr \<bar>N\<bar>"
  proof cases
    case 1
    with assms(2) have "0 < t" and "f32_round (t * 10) = of_int N"
      unfolding t_def by (simp_all add: f32_tenths)
    with 1 assms(2) show ?thesis
      by (simp add: f32_mul_def c_int_of_int)
  next
    case 2
    then have "t = 0" by (simp add: t_def f32_round_def)
    with 2 show ?thesis
      by (simp add: f32_mul_def f32_round_def c_int_def)
  next
    case 3
    define P where "P = - N"
    have P: "1 \<le> P" "P \<le> 999" using 3 assms(1) by (simp_all add: P_def)
    have t: "t = - f32_round (of_int P / 10)"
      unfolding t_def P_def by (simp flip: f32_round_minus)
    have tn: "t < 0" and r: "f32_round (- (t * 10)) = of_int P"
      using f32_tenths [OF P] by (simp_all add: t)
    have c: "c_int (of_int P) = Inr P"
      using P by (intro c_int_of_int) simp_all
    have a: "\<bar>N\<bar> = P" and n: "N < 0"
      using 3 by (simp_all add: P_def)
    show ?thesis
      using tn by (simp add: f32_mul_def r c a n)
  qed
  then show "(t < 0) = (N < 0)"
    and "c_int (f32_mul t (if (if t < 0 then 1 else 0 :: uint8_t) \<noteq> 0 then - 10 else 10)) = Inr \<bar>N\<bar>"
    by blast+
qed

lemma length_and_eq: "length (data (and_eq i v tx)) = length (data tx)"
  by (simp add: and_eq_def)

lemma length_or_eq: "length (data (or_eq i v tx)) = length (data tx)"
  by (simp add: or_eq_def)

lemma nth_and_eq:
  "i < length (data tx) \<Longrightarrow>
   data (and_eq i v tx) ! j = (if j = i then byte_and (data tx ! i) v else data tx ! j)"
  by (simp add: and_eq_byte nth_list_update)

lemma nth_or_eq:
  "i < length (data tx) \<Longrightarrow>
   data (or_eq i v tx) ! j = (if j = i then byte_or (data tx ! i) v else data tx ! j)"
  by (simp add: or_eq_byte nth_list_update)

lemmas frame_simps = length_and_eq length_or_eq nth_and_eq nth_or_eq

lemma setTemperature_bytes:
  assumes c: "c_int (f32_mul t (if (if t < 0 then 1 else 0 :: uint8_t) \<noteq> 0 then - 10 else 10)) = Inr n"
    and l: "length (data tx) = DATA_LEN"
  shows "\<exists>tx1. setTemperature t tx = Inr tx1 \<and> length (data tx1) = DATA_LEN \<and>
      data tx1 ! 6 = byte_or (byte_and (data tx ! 6) 0x0f)
                       (push_bit 4 (ucast (word_of_int (c_mod (c_div n 1) 10) :: uint8_t)) AND 0xf0) \<and>
      data tx1 ! 7 = byte_or (byte_and (byte_or (byte_and (data tx ! 7) 0xf0)
                         (push_bit 0 (ucast (word_of_int (c_mod (c_div n 10) 10) :: uint8_t)) AND 0x0f)) 0x0f)
                       (push_bit 4 (ucast (word_of_int (c_mod (c_div n 100) 10) :: uint8_t)) AND 0xf0) \<and>
      data tx1 ! 8 = byte_or (byte_and (byte_or (byte_and (data tx ! 8) 0xfc)
                         (push_bit 0 (ucast (word_of_int (c_mod (c_div n 1000) 10) :: uint8_t)) AND 0x03)) 0xf3)
                       (push_bit 3 (ucast (if t < 0 then 1 else 0 :: uint8_t)) AND 0x0c) \<and>
      data tx1 ! 9 = data tx ! 9"
  unfolding setTemperature_def Let_def c sum.case
  using l by (simp add: frame_simps DATA_LEN_def)


lemma setHumidity_bytes:
  assumes c: "c_int (f32_mul (f32_add h0 (1 / 2)) 10) = Inr n"
    and l: "length (data tx) = DATA_LEN"
  shows "\<exists>tx2. setHumidity h0 tx = Inr tx2 \<and> length (data tx2) = DATA_LEN \<and>
      data tx2 ! 8 = byte_or (byte_and (data tx ! 8) 0x0f)
                       (push_bit 4 (ucast (word_of_int (c_mod (c_div n 10) 10) :: uint8_t)) AND 0xf0) \<and>
      data tx2 ! 9 = byte_or (byte_and (data tx ! 9) 0xf0)
                       (push_bit 0 (ucast (word_of_int (c_mod (c_div n 100) 10) :: uint8_t)) AND 0x0f) \<and>
      data tx2 ! 6 = data tx ! 6 \<and> data tx2 ! 7 = data tx ! 7"
  unfolding setHumidity_def Let_def c sum.case
  using l by (simp add: frame_simps DATA_LEN_def)

lemma high_digit:
  assumes "0 \<le> k" "k < 16"
  shows "unat (byte_or (byte_and b 0x0f) (push_bit 4 (ucast (word_of_int k :: uint8_t)) AND 0xf0)) div 16
         = nat k"
proof -
  have "unat (byte_or (byte_and b 0x0f) (push_bit 4 (ucast (word_of_int k :: uint8_t)) AND 0xf0)) div 2 ^ 4
        = unat (drop_bit 4 (byte_or (byte_and b 0x0f) (push_bit 4 (ucast (word_of_int k :: uint8_t)) AND 0xf0)))"
    by (rule unat_drop_bit_div [symmetric])
  also have "\<dots> = unat ((word_of_int k :: uint8_t) AND mask 4)"
    by (simp only: high_nibble_packed)
  also have "\<dots> = nat k"
    by (rule unat_digit [OF assms])
  finally show ?thesis by simp
qed

lemma low_digit:
  assumes "0 \<le> k" "k < 16"
  shows "unat (byte_or (byte_and b 0xf0) (push_bit 0 (ucast (word_of_int k :: uint8_t)) AND 0x0f)) mod 16
         = nat k"
proof -
  have "unat (byte_or (byte_and b 0xf0) (push_bit 0 (ucast (word_of_int k :: uint8_t)) AND 0x0f)) mod 2 ^ 4
        = unat (byte_or (byte_and b 0xf0) (push_bit 0 (ucast (word_of_int k :: uint8_t)) AND 0x0f) AND mask 4)"
    by (rule unat_and_mask [symmetric])
  also have "\<dots> = unat ((word_of_int k :: uint8_t) AND mask 4)"
    by (simp only: low_nibble_packed)
  also have "\<dots> = nat k"
    by (rule unat_digit [OF assms])
  finally show ?thesis by simp
qed

lemma low_kept:
  "unat (byte_or (byte_and b 0x0f) (push_bit 4 (ucast x) AND 0xf0)) mod 16 = unat b mod 16"
proof -
  have "unat (byte_or (byte_and b 0x0f) (push_bit 4 (ucast x) AND 0xf0)) mod 2 ^ 4
        = unat (byte_or (byte_and b 0x0f) (push_bit 4 (ucast x) AND 0xf0) AND mask 4)"
    by (rule unat_and_mask [symmetric])
  also have "\<dots> = unat (b AND mask 4)"
    by (simp only: low_nibble_kept)
  also have "\<dots> = unat b mod 2 ^ 4"
    by (rule unat_and_mask)
  finally show ?thesis by simp
qed

text \<open>
  Claim C5. Let the temperature be the \<open>float\<close> nearest to \<open>N / 10\<close> for an integer \<open>N\<close>
  from -199 to 999, and the humidity an integer \<open>H\<close> from 0 to 99. On a 12-byte frame,
  \<open>setTemperature\<close> followed by \<open>setHumidity\<close> succeeds, and decoding the frame gives the
  sign of \<open>N\<close>, the tenths, ones and tens digit of its magnitude, and the ones and tens
  digit of \<open>H\<close>.
\<close>

theorem temperature_humidity_round_trip:
  assumes N: "- 199 \<le> N" "N \<le> 999" and H: "0 \<le> H" "H \<le> 99"
    and l: "length (data tx) = DATA_LEN"
  shows "\<exists>tx1 tx2.
      setTemperature (f32_round (of_int N / 10)) tx = Inr tx1 \<and>
      setHumidity (of_int H) tx1 = Inr tx2 \<and>
      decode_temperature (data tx2) =
        (N < 0, nat (\<bar>N\<bar> mod 10), nat (\<bar>N\<bar> div 10 mod 10), nat (\<bar>N\<bar> div 100 mod 10)) \<and>
      decode_humidity (data tx2) = (nat (H mod 10), nat (H div 10))"
proof -
  define t where "t = f32_round (of_int N / 10)"
  define n where "n = \<bar>N\<bar>"
  have n: "0 \<le> n" "n \<le> 999"
    using N by (simp_all add: n_def)
  have sg: "(t < 0) = (N < 0)"
    and sc: "c_int (f32_mul t (if (if t < 0 then 1 else 0 :: uint8_t) \<noteq> 0 then - 10 else 10)) = Inr n"
    unfolding t_def n_def by (rule setTemperature_scaled [OF N])+
  from setTemperature_bytes [OF sc l] obtain tx1 where
    s1: "setTemperature t tx = Inr tx1" and l1: "length (data tx1) = DATA_LEN" and
    b6: "data tx1 ! 6 = byte_or (byte_and (data tx ! 6) 0x0f)
                       (push_bit 4 (ucast (word_of_int (c_mod (c_div n 1) 10) :: uint8_t)) AND 0xf0)" and
    b7: "data tx1 ! 7 = byte_or (byte_and (byte_or (byte_and (data tx ! 7) 0xf0)
                         (push_bit 0 (ucast (word_of_int (c_mod (c_div n 10) 10) :: uint8_t)) AND 0x0f)) 0x0f)
                       (push_bit 4 (ucast (word_of_int (c_mod (c_div n 100) 10) :: uint8_t)) AND 0xf0)" and
    b8: "data tx1 ! 8 = byte_or (byte_and (byte_or (byte_and (data tx ! 8) 0xfc)
                         (push_bit 0 (ucast (word_of_int (c_mod (c_div n 1000) 10) :: uint8_t)) AND 0x03)) 0xf3)
                       (push_bit 3 (ucast (if t < 0 then 1 else 0 :: uint8_t)) AND 0x0c)"
    by blast
  define q where "q = 10 * H + 5"
  have q: "0 \<le> q" "q \<le> 32767"
    using H by (simp_all add: q_def)
  have hc: "c_int (f32_mul (f32_add (of_int H) (1 / 2)) 10) = Inr q"
    unfolding f32_humidity [OF H] q_def [symmetric] by (rule c_int_of_int [OF q])
  from setHumidity_bytes [OF hc l1] obtain tx2 where
    s2: "setHumidity (of_int H) tx1 = Inr tx2" and
    h8: "data tx2 ! 8 = byte_or (byte_and (data tx1 ! 8) 0x0f)
                       (push_bit 4 (ucast (word_of_int (c_mod (c_div q 10) 10) :: uint8_t)) AND 0xf0)" and
    h9: "data tx2 ! 9 = byte_or (byte_and (data tx1 ! 9) 0xf0)
                       (push_bit 0 (ucast (word_of_int (c_mod (c_div q 100) 10) :: uint8_t)) AND 0x0f)" and
    h6: "data tx2 ! 6 = data tx1 ! 6" and h7: "data tx2 ! 7 = data tx1 ! 7"
    by blast
  have dg: "c_mod (c_div n 1) 10 = n mod 10" "c_mod (c_div n 10) 10 = n div 10 mod 10"
    "c_mod (c_div n 100) 10 = n div 100 mod 10"
    using n by (simp_all add: c_div_nonneg c_mod_nonneg)
  have hd: "c_mod (c_div q 10) 10 = H mod 10" "c_mod (c_div q 100) 10 = H div 10"
    using q H by (simp_all add: c_div_nonneg c_mod_nonneg q_def)
  have tenths: "unat (data tx2 ! 6) div 16 = nat (n mod 10)"
    unfolding h6 b6 dg by (rule high_digit) simp_all
  have tens: "unat (data tx2 ! 7) div 16 = nat (n div 100 mod 10)"
    unfolding h7 b7 dg by (rule high_digit) simp_all
  have "unat (data tx2 ! 7) mod 16 =
        unat (byte_or (byte_and (data tx ! 7) 0xf0)
                (push_bit 0 (ucast (word_of_int (n div 10 mod 10) :: uint8_t)) AND 0x0f)) mod 16"
    unfolding h7 b7 dg by (rule low_kept)
  also have "\<dots> = nat (n div 10 mod 10)"
    by (rule low_digit) simp_all
  finally have ones: "unat (data tx2 ! 7) mod 16 = nat (n div 10 mod 10)" .
  have sign: "bit (data tx2 ! 8) 3 = (N < 0)"
    unfolding h8 b8 sign_bit_packed using sg by (simp add: bit_0)
  have hones: "unat (data tx2 ! 8) div 16 = nat (H mod 10)"
    unfolding h8 hd by (rule high_digit) simp_all
  have htens: "unat (data tx2 ! 9) mod 16 = nat (H div 10)"
    unfolding h9 hd using H by (intro low_digit) simp_all
  show ?thesis
  proof (intro exI conjI)
    show "setTemperature (f32_round (of_int N / 10)) tx = Inr tx1"
      using s1 by (simp only: t_def)
    show "setHumidity (of_int H) tx1 = Inr tx2"
      by (rule s2)
    show "decode_temperature (data tx2) =
        (N < 0, nat (\<bar>N\<bar> mod 10), nat (\<bar>N\<bar> div 10 mod 10), nat (\<bar>N\<bar> div 100 mod 10))"
      unfolding decode_temperature_def sign tenths ones tens n_def ..
    show "decode_humidity (data tx2) = (nat (H mod 10), nat (H div 10))"
      unfolding decode_humidity_def hones htens ..
  qed
qed

theorem temperature_humidity_round_trip_witness:
  "\<exists>tx1 tx2.
      setTemperature (f32_round (of_int (- 199) / 10)) (OS21Tx_new TX_PIN) = Inr tx1 \<and>
      setHumidity (of_int 99) tx1 = Inr tx2 \<and>
      decode_temperature (data tx2) = (True, 9, 9, 1) \<and>
      decode_humidity (data tx2) = (9, 9)"
proof -
  have l: "length (data (OS21Tx_new TX_PIN)) = DATA_LEN"
    by (simp add: OS21Tx_new_def DATA_LEN_def)
  have "- 199 \<le> (- 199 :: int)" "(- 199 :: int) \<le> 999" "0 \<le> (99 :: int)" "(99 :: int) \<le> 99"
    by simp_all
  from temperature_humidity_round_trip [OF this l] show ?thesis
    by simp
qed

end
